theory Spec2Isabelle
  imports Main "HOL-Library.Sublist"
begin

section \<open>Session controller: data model\<close>

text \<open>
  The values a controller field or a saved dictionary entry can hold. The source is
  untyped Python; strings, integers and \<open>None\<close> are the values that the GUI, the
  constructor defaults and the saved JSON put there.
\<close>

datatype pyval = PyNone | PyInt int | PyStr string

text \<open>Python truthiness, as used by \<open>if not self.config_path\<close> and \<open>if self.game_path\<close>.\<close>

fun truthy :: "pyval \<Rightarrow> bool" where
  "truthy PyNone = False"
| "truthy (PyInt i) = (i \<noteq> 0)"
| "truthy (PyStr s) = (s \<noteq> [])"

text \<open>The status strings assigned by \<open>SUTController\<close>.\<close>

datatype status = Idle | Running | Completed | Failed | Stopped | Error

text \<open>\<open>self.thread\<close>: \<open>None\<close>, a live thread, or a thread that has finished.\<close>

datatype thread_state = NoThread | ThreadAlive | ThreadDead

text \<open>Exceptions that escape a controller method.\<close>

datatype py_exc = AttributeError | TypeError

record controller =
  name :: pyval
  ip :: pyval
  port :: pyval
  config_path :: pyval
  game_path :: pyval
  run_count :: pyval
  run_delay :: pyval
  thread :: thread_state
  stop_event :: bool
  logger :: "string option"
  queue_handler :: "nat option"
  status :: status
  completed_steps :: int
  total_steps :: int
  current_step :: string
  current_run :: pyval
  total_runs :: pyval
  current_run_dir :: "string option"

text \<open>\<open>SUTController.__init__(name, ip, port, config_path="", game_path="")\<close>.\<close>

definition SUTController :: "pyval \<Rightarrow> pyval \<Rightarrow> pyval \<Rightarrow> pyval \<Rightarrow> pyval \<Rightarrow> controller" where
  "SUTController n i p cp gp =
     \<lparr> name = n, ip = i, port = p, config_path = cp, game_path = gp,
       run_count = PyInt 3, run_delay = PyInt 30,
       thread = NoThread, stop_event = False,
       logger = None, queue_handler = None,
       status = Idle, completed_steps = 0, total_steps = 0, current_step = [],
       current_run = PyInt 0, total_runs = PyInt 1,
       current_run_dir = None \<rparr>"

subsection \<open>Serialization\<close>

type_synonym pydict = "string \<rightharpoonup> pyval"

text \<open>\<open>dict.get(key, default)\<close>.\<close>

definition dict_get :: "pydict \<Rightarrow> string \<Rightarrow> pyval \<Rightarrow> pyval" where
  "dict_get d k dflt = (case d k of None \<Rightarrow> dflt | Some v \<Rightarrow> v)"

definition to_dict :: "controller \<Rightarrow> pydict" where
  "to_dict c =
     [ ''name'' \<mapsto> name c,
       ''ip'' \<mapsto> ip c,
       ''port'' \<mapsto> port c,
       ''config_path'' \<mapsto> config_path c,
       ''game_path'' \<mapsto> game_path c,
       ''run_count'' \<mapsto> run_count c,
       ''run_delay'' \<mapsto> run_delay c ]"

definition from_dict :: "pydict \<Rightarrow> controller" where
  "from_dict data =
     (let controller = SUTController
            (dict_get data ''name'' (PyStr ''SUT''))
            (dict_get data ''ip'' (PyStr ''''))
            (dict_get data ''port'' (PyInt 8080))
            (dict_get data ''config_path'' (PyStr ''''))
            (dict_get data ''game_path'' (PyStr ''''))
      in controller \<lparr> run_count := dict_get data ''run_count'' (PyInt 3),
                      run_delay := dict_get data ''run_delay'' (PyInt 30) \<rparr>)"

subsection \<open>Starting and stopping a session\<close>

text \<open>
  \<open>start_automation\<close>. The result is the returned boolean, or the exception that
  escapes, together with the controller as the call leaves it. \<open>self.logger\<close> is
  \<open>None\<close> until the worker has run \<open>setup_logger\<close>, and a method call on it then
  raises \<open>AttributeError\<close>. The spawned thread is recorded as \<open>ThreadAlive\<close>; its
  body is \<open>run_automation\<close> below and is not executed by this call.
\<close>

definition start_automation :: "controller \<Rightarrow> (py_exc + bool) \<times> controller" where
  "start_automation c =
     (if thread c = ThreadAlive then
        (if logger c = None then (Inl AttributeError, c) else (Inr False, c))
      else if \<not> truthy (config_path c) then
        (if logger c = None then (Inl AttributeError, c)
         else (Inr False, c\<lparr>status := Error\<rparr>))
      else
        (Inr True,
         c\<lparr> stop_event := False, status := Running, completed_steps := 0,
            current_run := PyInt 0, total_runs := run_count c,
            thread := ThreadAlive \<rparr>))"

definition stop_automation :: "controller \<Rightarrow> (py_exc + bool) \<times> controller" where
  "stop_automation c =
     (if thread c = ThreadAlive then
        (if logger c = None then (Inl AttributeError, c)
         else (Inr True, c\<lparr>stop_event := True, status := Stopped\<rparr>))
      else (Inr False, c))"

section \<open>Inference request broker: data model and operations\<close>

definition MAX_QUEUE_SIZE :: nat where
  "MAX_QUEUE_SIZE = 100"

text \<open>
  Exceptions of the queue service: \<open>HTTPException(status_code, detail)\<close> and the
  \<open>InvalidStateError\<close> that \<open>asyncio.Future\<close> raises when a result or an exception
  is set on a future that is no longer pending.
\<close>

datatype exn = HTTPException nat string | InvalidStateError

text \<open>An \<open>asyncio.Future\<close>: pending, or holding a result, or holding an exception.\<close>

datatype future = FutPending | FutResult string | FutException exn

text \<open>
  Futures are objects; a \<open>QueuedRequest\<close> refers to its own. The store \<open>futures\<close> of
  the manager below holds every future created so far, and \<open>response_future\<close> is the
  position of the request's future in it.
\<close>

record queued_request =
  request_id :: string
  payload :: string
  timestamp :: nat
  response_future :: nat

definition set_result :: "nat \<Rightarrow> string \<Rightarrow> future list \<Rightarrow> exn + future list" where
  "set_result a v fs =
     (if a < length fs \<and> fs ! a = FutPending then Inr (fs[a := FutResult v])
      else Inl InvalidStateError)"

definition set_exception :: "nat \<Rightarrow> exn \<Rightarrow> future list \<Rightarrow> exn + future list" where
  "set_exception a e fs =
     (if a < length fs \<and> fs ! a = FutPending then Inr (fs[a := FutException e])
      else Inl InvalidStateError)"

text \<open>
  The worker coroutine \<open>_worker\<close>, by the \<open>await\<close> it is suspended at: no task
  created yet, \<open>await self.request_queue.get()\<close>, the \<open>await\<close> of the forwarded
  call for a dequeued request, \<open>await asyncio.sleep(1)\<close> after a worker error, or
  finished.
\<close>

datatype worker_task =
  NoTask | AwaitGet | AwaitForward queued_request | AwaitSleep | TaskDone

record manager =
  request_queue :: "queued_request list"
  futures :: "future list"
  worker_task :: worker_task
  total_requests :: nat
  successful_requests :: nat
  failed_requests :: nat
  current_queue_size :: nat
  worker_running :: bool

text \<open>\<open>OmniparserQueueManager.__init__\<close>.\<close>

definition OmniparserQueueManager :: manager where
  "OmniparserQueueManager =
     \<lparr> request_queue = [], futures = [], worker_task = NoTask,
       total_requests = 0, successful_requests = 0, failed_requests = 0,
       current_queue_size = 0, worker_running = False \<rparr>"

text \<open>
  \<open>start_worker\<close> creates the task unless one exists that is not done; the new task
  runs to its first \<open>await\<close>, setting \<open>worker_running\<close> on the way.
\<close>

definition start_worker :: "manager \<Rightarrow> manager" where
  "start_worker m =
     (if worker_task m = NoTask \<or> worker_task m = TaskDone
      then m\<lparr>worker_task := AwaitGet, worker_running := True\<rparr>
      else m)"

text \<open>
  \<open>stop_worker\<close> cancels the task and awaits it. \<open>CancelledError\<close> is raised at the
  worker's current \<open>await\<close>. It is not an \<open>Exception\<close>, so at the queue wait and at
  the forwarded call it reaches the handler that clears \<open>worker_running\<close> and leaves the
  loop; raised at the sleep inside the \<open>except Exception\<close> handler it ends the task
  without passing that handler.
\<close>

definition stop_worker :: "manager \<Rightarrow> manager" where
  "stop_worker m =
     (case worker_task m of
        NoTask \<Rightarrow> m
      | TaskDone \<Rightarrow> m
      | AwaitSleep \<Rightarrow> m\<lparr>worker_task := TaskDone\<rparr>
      | AwaitGet \<Rightarrow> m\<lparr>worker_task := TaskDone, worker_running := False\<rparr>
      | AwaitForward qr \<Rightarrow> m\<lparr>worker_task := TaskDone, worker_running := False\<rparr>)"

text \<open>
  \<open>enqueue_request\<close> up to its \<open>await queued_request.response_future\<close>: the
  exception raised, or the future the caller is then suspended on. \<open>request_id\<close> (a
  random token) and the timestamp come from the environment. The queue is not full when
  \<open>put\<close> is reached, and no \<open>await\<close> lies between the size check and \<open>put\<close>, so
  \<open>put\<close> appends at once.
\<close>

definition enqueue_request ::
  "string \<Rightarrow> nat \<Rightarrow> string \<Rightarrow> manager \<Rightarrow> (exn + nat) \<times> manager" where
  "enqueue_request rid now pl m =
     (let current_size = length (request_queue m) in
      if current_size \<ge> MAX_QUEUE_SIZE then
        (Inl (HTTPException 503 ''Queue is full, please retry later''), m)
      else
        let a = length (futures m);
            queued = \<lparr> request_id = rid, payload = pl, timestamp = now,
                       response_future = a \<rparr>;
            m1 = m\<lparr> futures := futures m @ [FutPending],
                    total_requests := total_requests m + 1 \<rparr>;
            m2 = m1\<lparr> request_queue := request_queue m1 @ [queued] \<rparr>;
            queue_position = length (request_queue m2)
        in (Inr a, m2\<lparr> current_queue_size := queue_position \<rparr>))"

text \<open>
  The \<open>/parse/\<close> endpoint up to the same point: an \<open>HTTPException\<close> of
  \<open>enqueue_request\<close> is re-raised as it is, any other exception becomes a 500.
\<close>

definition parse_image ::
  "string \<Rightarrow> nat \<Rightarrow> string \<Rightarrow> manager \<Rightarrow> (exn + nat) \<times> manager" where
  "parse_image rid now pl m =
     (case enqueue_request rid now pl m of
        (Inl (HTTPException code detail), m') \<Rightarrow> (Inl (HTTPException code detail), m')
      | (Inl InvalidStateError, m') \<Rightarrow>
          (Inl (HTTPException 500 ''Internal server error''), m')
      | (Inr a, m') \<Rightarrow> (Inr a, m'))"

text \<open>
  What the POST to the backend comes back with: an HTTP response (status code and body),
  a timeout, or another \<open>requests.RequestException\<close> with its message. The body of a
  200 response stands for its decoded JSON.
\<close>

datatype backend_reply = Reply nat string | TimedOut | ConnFailed string

definition forward_to_omniparser :: "backend_reply \<Rightarrow> exn + string" where
  "forward_to_omniparser r =
     (case r of
        Reply code text \<Rightarrow>
          (if code \<noteq> 200 then Inl (HTTPException code (''Omniparser server error: '' @ text))
           else Inr text)
      | TimedOut \<Rightarrow> Inl (HTTPException 504 ''Omniparser request timed out'')
      | ConnFailed e \<Rightarrow> Inl (HTTPException 502 (''Failed to connect to Omniparser: '' @ e)))"

text \<open>What an observer of the broker sees happen.\<close>

datatype obs =
  Accepted nat | Rejected | SetResult nat | SetException nat | WorkerError

text \<open>
  The worker's \<open>self.request_queue.get()\<close> returning: the head of the queue is removed
  and the gauge updated; the worker goes on into \<open>_forward_to_omniparser\<close>.
\<close>

definition worker_get :: "manager \<Rightarrow> manager" where
  "worker_get m =
     (case request_queue m of
        [] \<Rightarrow> m
      | queued # rest \<Rightarrow>
          m\<lparr> request_queue := rest, current_queue_size := length rest,
             worker_task := AwaitForward queued \<rparr>)"

text \<open>
  The worker from the return of the forwarded call to its next \<open>await\<close>: the inner
  \<open>try\<close> sets the result, its \<open>except Exception\<close> sets the exception, and an
  exception raised in that handler reaches the outer \<open>except Exception\<close>, which logs
  the worker error and sleeps.
\<close>

definition worker_complete :: "queued_request \<Rightarrow> backend_reply \<Rightarrow> manager \<Rightarrow> obs \<times> manager" where
  "worker_complete queued r m =
     (let a = response_future queued;
          failure = (\<lambda>e.
            case set_exception a e (futures m) of
              Inr fs \<Rightarrow>
                (SetException a,
                 m\<lparr> futures := fs, failed_requests := failed_requests m + 1,
                    worker_task := AwaitGet \<rparr>)
            | Inl e' \<Rightarrow> (WorkerError, m\<lparr> worker_task := AwaitSleep \<rparr>))
      in case forward_to_omniparser r of
           Inr response_data \<Rightarrow>
             (case set_result a response_data (futures m) of
                Inr fs \<Rightarrow>
                  (SetResult a,
                   m\<lparr> futures := fs, successful_requests := successful_requests m + 1,
                      worker_task := AwaitGet \<rparr>)
              | Inl e \<Rightarrow> failure e)
         | Inl e \<Rightarrow> failure e)"

subsection \<open>The running service\<close>

text \<open>
  The service is the manager, the forwarded calls that are running in the executor's
  threads (by the future of their request), and the history of what has been observed.
\<close>

record service =
  mgr :: manager
  executor :: "nat list"
  history :: "obs list"

text \<open>
  What can happen next: a caller reaches \<open>/parse/\<close>; the worker's queue wait returns;
  the backend call returns; the sleep after a worker error ends; the lifespan shuts the
  service down.
\<close>

datatype event =
  Enqueue string nat string | WorkerGet | BackendDone backend_reply | SleepDone | Shutdown

definition step :: "event \<Rightarrow> service \<Rightarrow> service" where
  "step ev s =
     (case ev of
        Enqueue rid now pl \<Rightarrow>
          (case parse_image rid now pl (mgr s) of
             (Inl e, m') \<Rightarrow> s\<lparr> mgr := m', history := history s @ [Rejected] \<rparr>
           | (Inr a, m') \<Rightarrow> s\<lparr> mgr := m', history := history s @ [Accepted a] \<rparr>)
      | WorkerGet \<Rightarrow>
          (if worker_task (mgr s) = AwaitGet then
             (case worker_task (worker_get (mgr s)) of
                AwaitForward queued \<Rightarrow>
                  s\<lparr> mgr := worker_get (mgr s),
                     executor := executor s @ [response_future queued] \<rparr>
              | _ \<Rightarrow> s)
           else s)
      | BackendDone r \<Rightarrow>
          (case worker_task (mgr s) of
             AwaitForward queued \<Rightarrow>
               (case worker_complete queued r (mgr s) of
                  (ob, m') \<Rightarrow>
                    s\<lparr> mgr := m',
                       executor := remove1 (response_future queued) (executor s),
                       history := history s @ [ob] \<rparr>)
           | _ \<Rightarrow> s\<lparr> executor := tl (executor s) \<rparr>)
      | SleepDone \<Rightarrow>
          (if worker_task (mgr s) = AwaitSleep
           then s\<lparr> mgr := (mgr s)\<lparr> worker_task := AwaitGet \<rparr> \<rparr>
           else s)
      | Shutdown \<Rightarrow> s\<lparr> mgr := stop_worker (mgr s) \<rparr>)"

text \<open>
  The lifespan starts the worker once, before the first request is served, and stops it
  once, at shutdown.
\<close>

definition service_started :: service where
  "service_started =
     \<lparr> mgr = start_worker OmniparserQueueManager, executor = [], history = [] \<rparr>"

definition run :: "event list \<Rightarrow> service" where
  "run evs = foldl (\<lambda>s ev. step ev s) service_started evs"

fun accepted :: "obs list \<Rightarrow> nat list" where
  "accepted [] = []"
| "accepted (Accepted a # h) = a # accepted h"
| "accepted (_ # h) = accepted h"

fun fulfilled :: "obs list \<Rightarrow> nat list" where
  "fulfilled [] = []"
| "fulfilled (SetResult a # h) = a # fulfilled h"
| "fulfilled (SetException a # h) = a # fulfilled h"
| "fulfilled (_ # h) = fulfilled h"

section \<open>Session controller: serialization round trip\<close>

lemma dict_get_to_dict:
  "dict_get (to_dict c) ''name'' d = name c"
  "dict_get (to_dict c) ''ip'' d = ip c"
  "dict_get (to_dict c) ''port'' d = port c"
  "dict_get (to_dict c) ''config_path'' d = config_path c"
  "dict_get (to_dict c) ''game_path'' d = game_path c"
  "dict_get (to_dict c) ''run_count'' d = run_count c"
  "dict_get (to_dict c) ''run_delay'' d = run_delay c"
  by (simp_all add: dict_get_def to_dict_def)

text \<open>
  Claim C10. Deserializing the serialized record of any controller gives a controller
  with the same name, host, port, configuration path, launch target, iteration count and
  inter-iteration delay. The serialized record has exactly these seven keys, so the
  worker handle, the logging state and the live progress are not in it; in the
  deserialized controller they have the values of a newly constructed one.
\<close>

theorem from_dict_to_dict_roundtrip:
  "name (from_dict (to_dict c)) = name c \<and>
   ip (from_dict (to_dict c)) = ip c \<and>
   port (from_dict (to_dict c)) = port c \<and>
   config_path (from_dict (to_dict c)) = config_path c \<and>
   game_path (from_dict (to_dict c)) = game_path c \<and>
   run_count (from_dict (to_dict c)) = run_count c \<and>
   run_delay (from_dict (to_dict c)) = run_delay c \<and>
   dom (to_dict c) =
     {''name'', ''ip'', ''port'', ''config_path'', ''game_path'', ''run_count'', ''run_delay''} \<and>
   from_dict (to_dict c) =
     (SUTController (name c) (ip c) (port c) (config_path c) (game_path c))
       \<lparr> run_count := run_count c, run_delay := run_delay c \<rparr>"
proof -
  have d: "dom (to_dict c) =
     {''name'', ''ip'', ''port'', ''config_path'', ''game_path'', ''run_count'', ''run_delay''}"
    unfolding to_dict_def by (simp only: dom_fun_upd dom_empty option.simps) auto
  have f: "from_dict (to_dict c) =
     (SUTController (name c) (ip c) (port c) (config_path c) (game_path c))
       \<lparr> run_count := run_count c, run_delay := run_delay c \<rparr>"
    by (simp add: from_dict_def dict_get_to_dict)
  from d f show ?thesis by (simp add: SUTController_def)
qed

section \<open>Session controller: starting a session\<close>

text \<open>A session whose worker is running: started once, logger set up by the worker.\<close>

definition active_session :: controller where
  "active_session =
     (SUTController (PyStr ''SUT1'') (PyStr ''192.168.0.10'') (PyInt 8080)
        (PyStr ''config/game.yaml'') (PyStr []))
       \<lparr> thread := ThreadAlive, logger := Some ''SUT-SUT1'', status := Running \<rparr>"

text \<open>
  Claim C5, as stated, fails where a worker is already active: \<open>start_automation\<close>
  returns \<open>False\<close> there, but the status stays \<open>Running\<close>; it is not set to
  \<open>Error\<close>.
\<close>

theorem start_automation_active_counterexample:
  "thread active_session = ThreadAlive \<and>
   fst (start_automation active_session) = Inr False \<and>
   status (snd (start_automation active_session)) = Running \<and>
   status (snd (start_automation active_session)) \<noteq> Error"
  by (simp add: start_automation_def active_session_def SUTController_def)

text \<open>
  Claim C5, amended. For a session whose logger has been set up: when a worker is already
  active, \<open>start_automation\<close> returns \<open>False\<close> and leaves the session as it is;
  when no worker is active and no configuration is bound, it returns \<open>False\<close> and sets
  the status to \<open>Error\<close>, changing nothing else. Otherwise, with no worker active and a
  configuration bound, it clears the cancellation signal, resets \<open>completed_steps\<close> and
  \<open>current_run\<close> to 0, sets \<open>total_runs\<close> to the configured \<open>run_count\<close>, sets
  the status to \<open>Running\<close>, spawns the worker and returns \<open>True\<close>; the worker's body
  is not run by the call.
\<close>

theorem start_automation_contract:
  "(logger c \<noteq> None \<and> thread c = ThreadAlive \<longrightarrow>
      start_automation c = (Inr False, c)) \<and>
   (logger c \<noteq> None \<and> thread c \<noteq> ThreadAlive \<and> \<not> truthy (config_path c) \<longrightarrow>
      start_automation c = (Inr False, c\<lparr>status := Error\<rparr>)) \<and>
   (thread c \<noteq> ThreadAlive \<and> truthy (config_path c) \<longrightarrow>
      fst (start_automation c) = Inr True \<and>
      completed_steps (snd (start_automation c)) = 0 \<and>
      current_run (snd (start_automation c)) = PyInt 0 \<and>
      total_runs (snd (start_automation c)) = run_count c \<and>
      status (snd (start_automation c)) = Running \<and>
      thread (snd (start_automation c)) = ThreadAlive \<and>
      stop_event (snd (start_automation c)) = False \<and>
      snd (start_automation c) =
        c\<lparr> stop_event := False, status := Running, completed_steps := 0,
           current_run := PyInt 0, total_runs := run_count c, thread := ThreadAlive \<rparr>)"
  by (simp add: start_automation_def)

text \<open>
  A session that finished a batch and has lost its configuration, and a session that
  finished a batch and is started again.
\<close>

definition unbound_session :: controller where
  "unbound_session =
     (SUTController (PyStr ''SUT1'') (PyStr ''192.168.0.10'') (PyInt 8080)
        (PyStr []) (PyStr []))
       \<lparr> thread := ThreadDead, logger := Some ''SUT-SUT1'', status := Completed \<rparr>"

definition finished_session :: controller where
  "finished_session =
     active_session \<lparr> thread := ThreadDead, status := Failed, completed_steps := 4,
                      current_run := PyInt 2, run_count := PyInt 5, stop_event := True \<rparr>"

theorem start_automation_contract_witness:
  "start_automation active_session = (Inr False, active_session) \<and>
   start_automation unbound_session = (Inr False, unbound_session\<lparr>status := Error\<rparr>) \<and>
   fst (start_automation finished_session) = Inr True \<and>
   completed_steps (snd (start_automation finished_session)) = 0 \<and>
   current_run (snd (start_automation finished_session)) = PyInt 0 \<and>
   total_runs (snd (start_automation finished_session)) = PyInt 5 \<and>
   status (snd (start_automation finished_session)) = Running \<and>
   thread (snd (start_automation finished_session)) = ThreadAlive"
  using start_automation_contract [of active_session]
        start_automation_contract [of unbound_session]
        start_automation_contract [of finished_session]
  by (simp add: active_session_def unbound_session_def finished_session_def SUTController_def)

text \<open>
  A newly constructed session has no logger yet. Started without a configuration, the
  call to \<open>self.logger.error\<close> raises before the status is assigned.
\<close>

lemma start_automation_new_session_unbound:
  "start_automation (SUTController n i p (PyStr []) gp) =
     (Inl AttributeError, SUTController n i p (PyStr []) gp)"
  by (simp add: start_automation_def SUTController_def)

section \<open>Inference request broker: a full queue\<close>

text \<open>
  Claim C6. When the queue depth is at or above \<open>MAX_QUEUE_SIZE\<close>, which is 100,
  \<open>enqueue_request\<close> raises \<open>HTTPException\<close> 503 at once: the manager is left as it
  was, so nothing is appended to the queue, no future is created and no counter moves,
  and the call does not depend on any step of the worker. The \<open>/parse/\<close> endpoint
  passes the same exception to its caller without trying again.
\<close>

theorem enqueue_request_queue_full:
  "MAX_QUEUE_SIZE \<le> length (request_queue m) \<Longrightarrow>
     MAX_QUEUE_SIZE = 100 \<and>
     enqueue_request rid now pl m =
       (Inl (HTTPException 503 ''Queue is full, please retry later''), m) \<and>
     parse_image rid now pl m =
       (Inl (HTTPException 503 ''Queue is full, please retry later''), m) \<and>
     mgr (step (Enqueue rid now pl) \<lparr> mgr = m, executor = ex, history = h \<rparr>) = m \<and>
     history (step (Enqueue rid now pl) \<lparr> mgr = m, executor = ex, history = h \<rparr>) =
       h @ [Rejected]"
  by (simp add: enqueue_request_def parse_image_def step_def MAX_QUEUE_SIZE_def)

definition full_manager :: manager where
  "full_manager =
     (start_worker OmniparserQueueManager)
       \<lparr> request_queue :=
           map (\<lambda>a. \<lparr> request_id = ''0a1b2c3d'', payload = ''img'', timestamp = a,
                      response_future = a \<rparr>) [0..<100],
         futures := replicate 100 FutPending,
         total_requests := 100, current_queue_size := 100 \<rparr>"

theorem enqueue_request_queue_full_witness:
  "MAX_QUEUE_SIZE \<le> length (request_queue full_manager) \<and>
   enqueue_request ''deadbeef'' 7 ''img'' full_manager =
     (Inl (HTTPException 503 ''Queue is full, please retry later''), full_manager) \<and>
   length (request_queue (snd (enqueue_request ''deadbeef'' 7 ''img'' full_manager))) = 100"
proof -
  have h: "MAX_QUEUE_SIZE \<le> length (request_queue full_manager)"
    by (simp add: full_manager_def MAX_QUEUE_SIZE_def)
  have l: "length (request_queue full_manager) = 100"
    by (simp add: full_manager_def)
  from enqueue_request_queue_full [OF h, of "''deadbeef''" 7 "''img''"] h l
  show ?thesis by simp
qed

section \<open>Inference request broker: invariant of the running service\<close>

text \<open>
  The futures of the queued requests, in queue order.
\<close>

definition queue_futs :: "manager \<Rightarrow> nat list" where
  "queue_futs m = map response_future (request_queue m)"

text \<open>
  Where the accepted requests are, by the state of the worker: fulfilled, then the one
  being forwarded if any, then the queued ones. A worker that has been cancelled fulfils
  nothing more; the call it had forwarded may still be running in its thread.
\<close>

definition task_inv :: "service \<Rightarrow> bool" where
  "task_inv s =
     (case worker_task (mgr s) of
        AwaitForward q \<Rightarrow>
          accepted (history s) =
            fulfilled (history s) @ response_future q # queue_futs (mgr s) \<and>
          executor s = [response_future q]
      | TaskDone \<Rightarrow>
          prefix (fulfilled (history s)) (accepted (history s)) \<and> length (executor s) \<le> 1
      | AwaitSleep \<Rightarrow> False
      | _ \<Rightarrow>
          accepted (history s) = fulfilled (history s) @ queue_futs (mgr s) \<and>
          executor s = [])"

text \<open>A future is pending exactly as long as no fulfilment of it has been observed.\<close>

definition pending_inv :: "service \<Rightarrow> bool" where
  "pending_inv s =
     (\<forall>a < length (futures (mgr s)).
        (futures (mgr s) ! a = FutPending) = (a \<notin> set (fulfilled (history s))))"

definition broker_inv :: "service \<Rightarrow> bool" where
  "broker_inv s \<longleftrightarrow>
     accepted (history s) = [0..<length (futures (mgr s))] \<and>
     task_inv s \<and> pending_inv s \<and> WorkerError \<notin> set (history s)"

lemma accepted_append:
  "accepted (h @ [x]) = accepted h @ (case x of Accepted a \<Rightarrow> [a] | _ \<Rightarrow> [])"
  by (induction h rule: accepted.induct) (auto split: obs.splits)

lemma fulfilled_append:
  "fulfilled (h @ [x]) =
     fulfilled h @ (case x of SetResult a \<Rightarrow> [a] | SetException a \<Rightarrow> [a] | _ \<Rightarrow> [])"
  by (induction h rule: fulfilled.induct) (auto split: obs.splits)

lemma task_inv_prefix:
  assumes "task_inv s"
  shows "prefix (fulfilled (history s)) (accepted (history s))"
proof (cases "worker_task (mgr s)")
  case (AwaitForward q)
  with assms have "accepted (history s) =
      fulfilled (history s) @ response_future q # queue_futs (mgr s)"
    by (simp add: task_inv_def)
  then show ?thesis by (rule prefixI)
next
  case TaskDone
  with assms show ?thesis by (simp add: task_inv_def)
next
  case AwaitSleep
  with assms show ?thesis by (simp add: task_inv_def)
next
  case NoTask
  with assms have "accepted (history s) = fulfilled (history s) @ queue_futs (mgr s)"
    by (simp add: task_inv_def)
  then show ?thesis by (rule prefixI)
next
  case AwaitGet
  with assms have "accepted (history s) = fulfilled (history s) @ queue_futs (mgr s)"
    by (simp add: task_inv_def)
  then show ?thesis by (rule prefixI)
qed

lemma broker_inv_started: "broker_inv service_started"
  by (simp add: broker_inv_def task_inv_def pending_inv_def service_started_def
      start_worker_def OmniparserQueueManager_def queue_futs_def)

lemma step_enqueue_full:
  "MAX_QUEUE_SIZE \<le> length (request_queue (mgr s)) \<Longrightarrow>
     step (Enqueue rid now pl) s = s\<lparr>history := history s @ [Rejected]\<rparr>"
  by (simp add: step_def parse_image_def enqueue_request_def)

lemma step_enqueue_accept:
  "\<not> MAX_QUEUE_SIZE \<le> length (request_queue (mgr s)) \<Longrightarrow>
     step (Enqueue rid now pl) s =
       s\<lparr> mgr := (mgr s)\<lparr> futures := futures (mgr s) @ [FutPending],
                 total_requests := total_requests (mgr s) + 1,
                 request_queue := request_queue (mgr s) @
                   [\<lparr> request_id = rid, payload = pl, timestamp = now,
                      response_future = length (futures (mgr s)) \<rparr>],
                 current_queue_size := length (request_queue (mgr s)) + 1 \<rparr>,
          history := history s @ [Accepted (length (futures (mgr s)))] \<rparr>"
  by (simp add: step_def parse_image_def enqueue_request_def Let_def)

lemma broker_inv_parts:
  assumes "broker_inv s"
  shows "accepted (history s) = [0..<length (futures (mgr s))]"
    and "task_inv s" and "pending_inv s" and "WorkerError \<notin> set (history s)"
  using assms by (simp_all add: broker_inv_def)

lemma broker_inv_enqueue:
  assumes "broker_inv s"
  shows "broker_inv (step (Enqueue rid now pl) s)"
proof (cases "MAX_QUEUE_SIZE \<le> length (request_queue (mgr s))")
  case True
  note inv = broker_inv_parts [OF assms]
  have t: "task_inv (s\<lparr>history := history s @ [Rejected]\<rparr>)"
    using inv(2) unfolding task_inv_def
    by (cases "worker_task (mgr s)")
       (simp_all add: accepted_append fulfilled_append queue_futs_def)
  have p: "pending_inv (s\<lparr>history := history s @ [Rejected]\<rparr>)"
    using inv(3) by (simp add: pending_inv_def fulfilled_append)
  show ?thesis
    using inv(1,4) t p unfolding step_enqueue_full [OF True] broker_inv_def
    by (simp add: accepted_append)
next
  case False
  note inv = broker_inv_parts [OF assms]
  let ?n = "length (futures (mgr s))"
  have pen: "\<forall>a < ?n. (futures (mgr s) ! a = FutPending) = (a \<notin> set (fulfilled (history s)))"
    using inv(3) by (simp add: pending_inv_def)
  have "set (fulfilled (history s)) \<subseteq> set (accepted (history s))"
    using task_inv_prefix [OF inv(2)] by (rule set_mono_prefix)
  then have sub: "?n \<notin> set (fulfilled (history s))"
    by (auto simp add: inv(1))
  have a3: "\<forall>a < Suc ?n.
      ((futures (mgr s) @ [FutPending]) ! a = FutPending) = (a \<notin> set (fulfilled (history s)))"
    using pen sub by (auto simp add: nth_append less_Suc_eq)
  have t: "task_inv (step (Enqueue rid now pl) s)"
    using inv(2) unfolding step_enqueue_accept [OF False] task_inv_def
    by (cases "worker_task (mgr s)")
       (simp_all add: accepted_append fulfilled_append queue_futs_def)
  have p: "pending_inv (step (Enqueue rid now pl) s)"
    using a3 unfolding step_enqueue_accept [OF False] pending_inv_def
    by (simp add: fulfilled_append)
  have a: "accepted (history (step (Enqueue rid now pl) s)) =
      [0..<length (futures (mgr (step (Enqueue rid now pl) s)))]"
    unfolding step_enqueue_accept [OF False] by (simp add: accepted_append inv(1))
  have w: "WorkerError \<notin> set (history (step (Enqueue rid now pl) s))"
    using inv(4) unfolding step_enqueue_accept [OF False] by simp
  from a t p w show ?thesis unfolding broker_inv_def by blast
qed

lemma broker_inv_worker_get:
  assumes "broker_inv s"
  shows "broker_inv (step WorkerGet s)"
proof (cases "worker_task (mgr s) = AwaitGet")
  case False
  then show ?thesis using assms by (simp add: step_def)
next
  case True
  note inv = broker_inv_parts [OF assms]
  show ?thesis
  proof (cases "request_queue (mgr s)")
    case Nil
    then have "step WorkerGet s = s"
      using True by (simp add: step_def worker_get_def)
    then show ?thesis using assms by simp
  next
    case (Cons q rest)
    then have st: "step WorkerGet s =
        s\<lparr> mgr := (mgr s)\<lparr> request_queue := rest, current_queue_size := length rest,
                          worker_task := AwaitForward q \<rparr>,
           executor := executor s @ [response_future q] \<rparr>"
      using True by (simp add: step_def worker_get_def)
    have t: "task_inv (step WorkerGet s)"
      using inv(2) True Cons unfolding st task_inv_def
      by (simp add: queue_futs_def)
    have p: "pending_inv (step WorkerGet s)"
      using inv(3) unfolding st pending_inv_def by simp
    show ?thesis
      using inv(1,4) t p unfolding broker_inv_def by (simp add: st)
  qed
qed

lemma broker_inv_sleep_done:
  assumes "broker_inv s"
  shows "broker_inv (step SleepDone s)"
proof -
  have "task_inv s" by (rule broker_inv_parts(2) [OF assms])
  then have "worker_task (mgr s) \<noteq> AwaitSleep"
    by (auto simp add: task_inv_def)
  then show ?thesis using assms by (simp add: step_def)
qed

lemma broker_inv_shutdown:
  assumes "broker_inv s"
  shows "broker_inv (step Shutdown s)"
proof -
  note inv = broker_inv_parts [OF assms]
  have t: "task_inv (step Shutdown s)"
    using inv(2) task_inv_prefix [OF inv(2)]
    by (cases "worker_task (mgr s)")
       (simp_all add: step_def stop_worker_def task_inv_def queue_futs_def)
  have p: "pending_inv (step Shutdown s)"
    using inv(3)
    by (cases "worker_task (mgr s)")
       (simp_all add: step_def stop_worker_def pending_inv_def)
  have a: "accepted (history (step Shutdown s)) =
      [0..<length (futures (mgr (step Shutdown s)))]"
    using inv(1)
    by (cases "worker_task (mgr s)") (simp_all add: step_def stop_worker_def)
  have w: "WorkerError \<notin> set (history (step Shutdown s))"
    using inv(4) by (simp add: step_def)
  from a t p w show ?thesis unfolding broker_inv_def by blast
qed

lemma worker_complete_pending:
  assumes "a = response_future q" and "a < length (futures m)"
    and "futures m ! a = FutPending"
  shows "\<exists>f. f \<noteq> FutPending \<and>
     (worker_complete q r m =
        (SetResult a, m\<lparr> futures := (futures m)[a := f],
             successful_requests := successful_requests m + 1, worker_task := AwaitGet \<rparr>) \<or>
      worker_complete q r m =
        (SetException a, m\<lparr> futures := (futures m)[a := f],
             failed_requests := failed_requests m + 1, worker_task := AwaitGet \<rparr>))"
  using assms
  by (cases "forward_to_omniparser r")
     (auto simp add: worker_complete_def set_result_def set_exception_def Let_def)

lemma broker_inv_backend_done:
  assumes "broker_inv s"
  shows "broker_inv (step (BackendDone r) s)"
proof (cases "worker_task (mgr s)")
  case (AwaitForward q)
  note inv = broker_inv_parts [OF assms]
  let ?a = "response_future q"
  have spl: "accepted (history s) = fulfilled (history s) @ ?a # queue_futs (mgr s)"
    and ex: "executor s = [?a]"
    using inv(2) AwaitForward by (simp_all add: task_inv_def)
  have "?a \<in> set (accepted (history s))" by (subst spl) simp
  then have lt: "?a < length (futures (mgr s))" by (simp add: inv(1))
  have "distinct (accepted (history s))" by (simp add: inv(1))
  then have nf: "?a \<notin> set (fulfilled (history s))" by (subst (asm) spl) simp
  with inv(3) lt have pe: "futures (mgr s) ! ?a = FutPending"
    by (simp add: pending_inv_def)
  from worker_complete_pending [OF refl lt pe, of r]
  obtain f ob m' where f: "f \<noteq> FutPending"
    and wc: "worker_complete q r (mgr s) = (ob, m')"
    and ob: "ob = SetResult ?a \<or> ob = SetException ?a"
    and fm: "futures m' = (futures (mgr s))[?a := f]"
    and wt: "worker_task m' = AwaitGet"
    and rq: "request_queue m' = request_queue (mgr s)"
    by fastforce
  have st: "step (BackendDone r) s =
      s\<lparr> mgr := m', executor := [], history := history s @ [ob] \<rparr>"
    using AwaitForward wc ex by (simp add: step_def)
  have fu: "fulfilled (history s @ [ob]) = fulfilled (history s) @ [?a]"
    using ob by (auto simp add: fulfilled_append)
  have ac: "accepted (history s @ [ob]) = accepted (history s)"
    using ob by (auto simp add: accepted_append)
  have t: "task_inv (step (BackendDone r) s)"
    unfolding st task_inv_def using wt rq spl
    by (simp add: fu ac queue_futs_def)
  have p: "pending_inv (step (BackendDone r) s)"
    unfolding st pending_inv_def using inv(3) f fm lt
    by (auto simp add: fu pending_inv_def nth_list_update)
  have a: "accepted (history (step (BackendDone r) s)) =
      [0..<length (futures (mgr (step (BackendDone r) s)))]"
    unfolding st using inv(1) fm by (simp add: ac)
  have w: "WorkerError \<notin> set (history (step (BackendDone r) s))"
    unfolding st using inv(4) ob by auto
  from a t p w show ?thesis unfolding broker_inv_def by blast
next
  case NoTask
  note inv = broker_inv_parts [OF assms]
  have "executor s = []" using inv(2) NoTask by (simp add: task_inv_def)
  then have "step (BackendDone r) s = s" using NoTask by (simp add: step_def)
  then show ?thesis using assms by simp
next
  case AwaitGet
  note inv = broker_inv_parts [OF assms]
  have "executor s = []" using inv(2) AwaitGet by (simp add: task_inv_def)
  then have "step (BackendDone r) s = s" using AwaitGet by (simp add: step_def)
  then show ?thesis using assms by simp
next
  case AwaitSleep
  then show ?thesis using broker_inv_parts(2) [OF assms] by (simp add: task_inv_def)
next
  case TaskDone
  note inv = broker_inv_parts [OF assms]
  have st: "step (BackendDone r) s = s\<lparr> executor := tl (executor s) \<rparr>"
    using TaskDone by (simp add: step_def)
  have t: "task_inv (step (BackendDone r) s)"
    unfolding st using inv(2) TaskDone by (simp add: task_inv_def)
  show ?thesis
    using inv(1,3,4) t unfolding broker_inv_def by (simp add: st pending_inv_def)
qed

lemma broker_inv_step:
  "broker_inv s \<Longrightarrow> broker_inv (step ev s)"
  by (cases ev)
     (simp_all only: broker_inv_enqueue broker_inv_worker_get broker_inv_backend_done
        broker_inv_sleep_done broker_inv_shutdown)

lemma broker_inv_foldl:
  "broker_inv s \<Longrightarrow> broker_inv (foldl (\<lambda>s ev. step ev s) s evs)"
  by (induction evs arbitrary: s) (simp_all add: broker_inv_step)

lemma broker_inv_run: "broker_inv (run evs)"
  unfolding run_def by (rule broker_inv_foldl [OF broker_inv_started])


lemma broker_inv_example:
  "history (run [Enqueue ''a1'' 0 ''img1'', Enqueue ''b2'' 1 ''img2'', WorkerGet,
                 BackendDone (Reply 200 ''{}''), Enqueue ''c3'' 2 ''img3'', WorkerGet,
                 BackendDone TimedOut, Shutdown]) =
     [Accepted 0, Accepted 1, SetResult 0, Accepted 2, SetException 1]"
  by (simp add: run_def step_def parse_image_def enqueue_request_def MAX_QUEUE_SIZE_def
      service_started_def start_worker_def stop_worker_def OmniparserQueueManager_def
      worker_get_def worker_complete_def forward_to_omniparser_def set_result_def
      set_exception_def Let_def)

lemma worker_complete_not_pending:
  "a = response_future q \<Longrightarrow> a < length (futures m) \<Longrightarrow> futures m ! a \<noteq> FutPending \<Longrightarrow>
     worker_complete q r m = (WorkerError, m\<lparr>worker_task := AwaitSleep\<rparr>)"
  by (cases "forward_to_omniparser r")
     (simp_all add: worker_complete_def set_result_def set_exception_def Let_def)

section \<open>Inference request broker: single flight, FIFO completion, single assignment\<close>

text \<open>
  Claim C1. In every state the service reaches, whatever callers enqueue and whenever
  the worker and the backend move, at most one forwarded call is running against the
  backend. While the worker awaits a forwarded call that call is the only one; while it
  waits on the queue there is none, so it dequeues the next request only after the
  previous call has returned and its future has been fulfilled.
\<close>

theorem single_request_in_flight:
  "length (executor (run evs)) \<le> 1 \<and>
   (case worker_task (mgr (run evs)) of
      AwaitForward q \<Rightarrow> executor (run evs) = [response_future q]
    | AwaitGet \<Rightarrow> executor (run evs) = []
    | _ \<Rightarrow> length (executor (run evs)) \<le> 1)"
proof -
  have "task_inv (run evs)"
    by (rule broker_inv_parts(2) [OF broker_inv_run])
  then show ?thesis
    by (cases "worker_task (mgr (run evs))") (simp_all add: task_inv_def)
qed


subsection \<open>A live worker drains the queue\<close>



lemma step_not_NoTask:
  "worker_task (mgr s) \<noteq> NoTask \<Longrightarrow> worker_task (mgr (step ev s)) \<noteq> NoTask"
proof (cases ev)
  case (Enqueue rid now pl)
  then show "worker_task (mgr s) \<noteq> NoTask \<Longrightarrow> worker_task (mgr (step ev s)) \<noteq> NoTask"
    by (cases "MAX_QUEUE_SIZE \<le> length (request_queue (mgr s))")
       (simp_all add: step_enqueue_full step_enqueue_accept)
next
  case WorkerGet
  then show "worker_task (mgr s) \<noteq> NoTask \<Longrightarrow> worker_task (mgr (step ev s)) \<noteq> NoTask"
    by (auto simp add: step_def worker_get_def split: list.splits worker_task.splits)
next
  case (BackendDone r)
  then show "worker_task (mgr s) \<noteq> NoTask \<Longrightarrow> worker_task (mgr (step ev s)) \<noteq> NoTask"
    by (cases "forward_to_omniparser r")
       (auto simp add: step_def worker_complete_def Let_def
          split: worker_task.splits sum.splits)
next
  case SleepDone
  then show "worker_task (mgr s) \<noteq> NoTask \<Longrightarrow> worker_task (mgr (step ev s)) \<noteq> NoTask"
    by (simp add: step_def)
next
  case Shutdown
  then show "worker_task (mgr s) \<noteq> NoTask \<Longrightarrow> worker_task (mgr (step ev s)) \<noteq> NoTask"
    by (simp add: step_def stop_worker_def split: worker_task.splits)
qed

lemma run_not_NoTask: "worker_task (mgr (run evs)) \<noteq> NoTask"
proof -
  have "\<And>s. worker_task (mgr s) \<noteq> NoTask \<Longrightarrow>
      worker_task (mgr (foldl (\<lambda>s ev. step ev s) s evs)) \<noteq> NoTask"
    by (induction evs) (simp_all add: step_not_NoTask)
  then show ?thesis
    unfolding run_def by (simp add: service_started_def start_worker_def OmniparserQueueManager_def)
qed







section \<open>Session controller: logging channel\<close>

text \<open>
  Handlers are objects. A \<open>QueueHandler\<close> is identified by the order of its creation;
  the other handlers that may sit on the root logger are file and stream handlers.
\<close>

datatype handler = QueueHandler nat | FileHandler string | StreamHandler nat

fun is_queue_handler :: "handler \<Rightarrow> bool" where
  "is_queue_handler (QueueHandler _) = True"
| "is_queue_handler _ = False"

text \<open>
  The process-wide state of the \<open>logging\<close> module: the handlers and level of the root
  logger, the handlers of the named loggers, and the number of queue handlers created.
\<close>

record logging =
  root_handlers :: "handler list"
  root_level :: string
  named_handlers :: "string \<Rightarrow> handler list"
  handlers_created :: nat

text \<open>\<open>Logger.addHandler\<close> and \<open>Logger.removeHandler\<close>.\<close>

definition add_handler :: "handler \<Rightarrow> handler list \<Rightarrow> handler list" where
  "add_handler h hs = (if h \<in> set hs then hs else hs @ [h])"

definition remove_handler :: "handler \<Rightarrow> handler list \<Rightarrow> handler list" where
  "remove_handler h hs = (if h \<in> set hs then remove1 h hs else hs)"

text \<open>\<open>str()\<close> of a value, as an f-string formats it.\<close>

fun digits_of :: "nat \<Rightarrow> string" where
  "digits_of n =
     (if n < 10 then [char_of (48 + n)]
      else digits_of (n div 10) @ [char_of (48 + n mod 10)])"

definition show_int :: "int \<Rightarrow> string" where
  "show_int i = (if i < 0 then CHR ''-'' # digits_of (nat (- i)) else digits_of (nat i))"

fun py_str :: "pyval \<Rightarrow> string" where
  "py_str PyNone = ''None''"
| "py_str (PyInt i) = show_int i"
| "py_str (PyStr s) = s"

definition valid_levels :: "string list" where
  "valid_levels = [''DEBUG'', ''INFO'', ''WARNING'', ''ERROR'', ''CRITICAL'']"

text \<open>
  \<open>setup_logger\<close>: the session's own logger loses its handlers, the root logger loses
  every \<open>QueueHandler\<close>, and a new \<open>QueueHandler\<close> is added to both and kept in
  \<open>self.queue_handler\<close>.
\<close>

definition setup_logger :: "string \<Rightarrow> controller \<Rightarrow> logging \<Rightarrow> controller \<times> logging" where
  "setup_logger log_level c L =
     (let level = (if log_level \<in> set valid_levels then log_level else ''INFO'');
          logger_name = ''SUT-'' @ py_str (name c);
          root = filter (\<lambda>h. \<not> is_queue_handler h) (root_handlers L);
          queue_handler' = QueueHandler (handlers_created L)
      in (c\<lparr> logger := Some logger_name, queue_handler := Some (handlers_created L) \<rparr>,
          L\<lparr> named_handlers := (named_handlers L)(logger_name := add_handler queue_handler' []),
             root_handlers := add_handler queue_handler' root,
             root_level := level,
             handlers_created := handlers_created L + 1 \<rparr>))"

text \<open>
  The \<open>finally\<close> block of \<open>_run_automation\<close>: the session's own queue handler is
  removed from the root logger.
\<close>

definition detach_queue_handler :: "controller \<Rightarrow> logging \<Rightarrow> logging" where
  "detach_queue_handler c L =
     (case queue_handler c of
        None \<Rightarrow> L
      | Some h \<Rightarrow> L\<lparr> root_handlers := remove_handler (QueueHandler h) (root_handlers L) \<rparr>)"

section \<open>Session controller: the batch worker\<close>

text \<open>
  What the worker cannot decide by itself. \<open>stop_at\<close> says when the user raises the
  cancellation signal, counted in checkpoints of the worker: \<open>Some t\<close> means that the
  signal is raised after the worker's checkpoint number \<open>t - 1\<close> and is seen from
  checkpoint number \<open>t\<close> on (checkpoints are counted from 0). \<open>config\<close> is the
  parsed configuration, or \<open>None\<close> when \<open>HybridConfigParser\<close> raises. For each run,
  \<open>script\<close> says which of the calls into the collaborators raise and what the
  automation engine returns.
\<close>

datatype engine_result = Success | Failure | Raises

record run_script =
  import_raises :: bool
  init_raises :: bool
  launch_raises :: bool
  engine :: engine_result
  cleanup_raises :: bool

record config =
  step_based :: bool
  startup_wait :: int

record env =
  log_level :: string
  stop_at :: "nat option"
  config :: "config option"
  batch_dir :: string
  batch_dir_raises :: bool
  script :: "int \<Rightarrow> run_script"

text \<open>What the worker does that the claims speak about, in the order it does it.\<close>

datatype action = SetRun int | MkDir int | Engine int | Assign status

text \<open>
  The worker: the controller it mutates, the logging state, the number of checkpoints
  passed and of seconds slept, the actions so far, and for each finished run the status
  that the run left.
\<close>

record worker =
  ctl :: controller
  lg :: logging
  checks :: nat
  slept :: nat
  trace :: "action list"
  outcomes :: "(int \<times> status) list"

text \<open>
  \<open>self.stop_event.is_set()\<close>, a checkpoint. A signal raised by now is in the event
  from here on: the event is only cleared by \<open>start_automation\<close>, which does nothing
  while the worker is alive.
\<close>

definition is_set :: "env \<Rightarrow> worker \<Rightarrow> bool \<times> worker" where
  "is_set E w =
     (let raised = (case stop_at E of None \<Rightarrow> False | Some t \<Rightarrow> t \<le> checks w);
          flag = (stop_event (ctl w) \<or> raised)
      in (flag, w\<lparr> ctl := (ctl w)\<lparr> stop_event := flag \<rparr>, checks := checks w + 1 \<rparr>))"

definition assign :: "status \<Rightarrow> worker \<Rightarrow> worker" where
  "assign st w = w\<lparr> ctl := (ctl w)\<lparr> status := st \<rparr>, trace := trace w @ [Assign st] \<rparr>"

definition sleep1 :: "worker \<Rightarrow> worker" where
  "sleep1 w = w\<lparr> slept := slept w + 1 \<rparr>"

text \<open>
  The wait for the game to initialize: \<open>for i in range(startup_wait)\<close>, leaving the
  loop at a raised signal, else sleeping a second. The first argument is
  \<open>startup_wait\<close>, the second the number of iterations left.
\<close>

fun startup_wait_loop :: "env \<Rightarrow> int \<Rightarrow> nat \<Rightarrow> worker \<Rightarrow> worker" where
  "startup_wait_loop E sw 0 w = w"
| "startup_wait_loop E sw (Suc n) w =
     (case is_set E w of
        (True, w1) \<Rightarrow> w1
      | (False, w1) \<Rightarrow>
          startup_wait_loop E sw n
            ((sleep1 w1)\<lparr> ctl := (ctl w1)\<lparr> current_step :=
               ''Initializing ('' @ show_int (sw - (int (nat sw) - int (Suc n))) @ ''s)'' \<rparr> \<rparr>))"

text \<open>
  The inner \<open>try\<close> of a run: launch and wait if a game path is given, checkpoint, run
  the engine, and set the status from its result. Any exception sets \<open>Failed\<close>.
\<close>

definition run_inner :: "env \<Rightarrow> config \<Rightarrow> int \<Rightarrow> worker \<Rightarrow> worker" where
  "run_inner E cfg run_num w =
     (if truthy (game_path (ctl w)) \<and> launch_raises (script E run_num) then assign Failed w
      else
        let w1 = (if truthy (game_path (ctl w))
                  then startup_wait_loop E (startup_wait cfg) (nat (startup_wait cfg)) w
                  else w)
        in case is_set E w1 of
             (True, w2) \<Rightarrow> assign Stopped w2
           | (False, w2) \<Rightarrow>
               (let w3 = w2\<lparr> trace := trace w2 @ [Engine run_num] \<rparr>
                in case engine (script E run_num) of
                     Raises \<Rightarrow> assign Failed w3
                   | Success \<Rightarrow> assign Completed w3
                   | Failure \<Rightarrow>
                       (case is_set E w3 of
                          (True, w4) \<Rightarrow> assign Stopped w4
                        | (False, w4) \<Rightarrow> assign Failed w4)))"

text \<open>
  \<open>_run_simple_automation\<close>: imports, the run directory, the components, the inner
  \<open>try\<close> with its \<open>finally\<close>; an exception anywhere outside the inner \<open>try\<close>,
  also in the \<open>finally\<close>, reaches the outer handler, which sets \<open>Failed\<close>. The
  per-run log file handler is attached to the session's own logger only.
\<close>

definition run_simple_automation :: "env \<Rightarrow> config \<Rightarrow> int \<Rightarrow> worker \<Rightarrow> worker" where
  "run_simple_automation E cfg run_num w =
     (if import_raises (script E run_num) then assign Failed w
      else
        let run_dir = batch_dir E @ ''/run_'' @ show_int run_num;
            w1 = w\<lparr> ctl := (ctl w)\<lparr> current_run_dir := Some run_dir \<rparr>,
                   trace := trace w @ [MkDir run_num] \<rparr>
        in if init_raises (script E run_num) then assign Failed w1
           else
             let w2 = run_inner E cfg run_num w1
             in if cleanup_raises (script E run_num) then assign Failed w2 else w2)"

text \<open>\<open>_run_state_machine_automation\<close> has the same control structure.\<close>

definition run_state_machine_automation :: "env \<Rightarrow> config \<Rightarrow> int \<Rightarrow> worker \<Rightarrow> worker" where
  "run_state_machine_automation E cfg run_num w =
     (if import_raises (script E run_num) then assign Failed w
      else
        let run_dir = batch_dir E @ ''/run_'' @ show_int run_num;
            w1 = w\<lparr> ctl := (ctl w)\<lparr> current_run_dir := Some run_dir \<rparr>,
                   trace := trace w @ [MkDir run_num] \<rparr>
        in if init_raises (script E run_num) then assign Failed w1
           else
             let w2 = run_inner E cfg run_num w1
             in if cleanup_raises (script E run_num) then assign Failed w2 else w2)"

text \<open>
  How a piece of the worker's body ends: it goes on, it executes \<open>return\<close>, or it
  raises.
\<close>

datatype flow = Continue | Return | Raise

text \<open>
  The delay between runs: \<open>for _ in range(run_delay)\<close>, returning at a raised signal,
  else sleeping a second. The argument is the number of iterations left.
\<close>

fun delay_loop :: "env \<Rightarrow> nat \<Rightarrow> worker \<Rightarrow> flow \<times> worker" where
  "delay_loop E 0 w = (Continue, w)"
| "delay_loop E (Suc n) w =
     (case is_set E w of
        (True, w1) \<Rightarrow> (Return, assign Stopped w1)
      | (False, w1) \<Rightarrow> delay_loop E n (sleep1 w1))"

text \<open>
  The body of \<open>for run_num in range(1, run_count + 1)\<close>. Comparing \<open>run_delay\<close>
  with 0 raises \<open>TypeError\<close> unless it is a number; the comparison is reached only
  when \<open>run_num < run_count\<close>.
\<close>

definition run_iteration :: "env \<Rightarrow> config \<Rightarrow> int \<Rightarrow> pyval \<Rightarrow> int \<Rightarrow> worker \<Rightarrow> flow \<times> worker" where
  "run_iteration E cfg run_count' run_delay' run_num w =
     (case is_set E w of
        (True, w1) \<Rightarrow> (Return, assign Stopped w1)
      | (False, w1) \<Rightarrow>
          (let w2 = w1\<lparr> ctl := (ctl w1)\<lparr> current_run := PyInt run_num \<rparr>,
                        trace := trace w1 @ [SetRun run_num] \<rparr>;
               w3 = (if step_based cfg then run_simple_automation E cfg run_num w2
                     else run_state_machine_automation E cfg run_num w2);
               w4 = w3\<lparr> outcomes := outcomes w3 @ [(run_num, status (ctl w3))] \<rparr>
           in case is_set E w4 of
                (True, w5) \<Rightarrow> (Return, assign Stopped w5)
              | (False, w5) \<Rightarrow>
                  if status (ctl w5) = Failed then (Return, w5)
                  else if run_num < run_count' then
                    (case run_delay' of
                       PyInt d \<Rightarrow> if d > 0 then delay_loop E (nat d) w5 else (Continue, w5)
                     | _ \<Rightarrow> (Raise, w5))
                  else (Continue, w5)))"

fun run_loop :: "env \<Rightarrow> config \<Rightarrow> int \<Rightarrow> pyval \<Rightarrow> int list \<Rightarrow> worker \<Rightarrow> flow \<times> worker" where
  "run_loop E cfg rc rd [] w = (Continue, w)"
| "run_loop E cfg rc rd (run_num # rest) w =
     (case run_iteration E cfg rc rd run_num w of
        (Continue, w1) \<Rightarrow> run_loop E cfg rc rd rest w1
      | (Return, w1) \<Rightarrow> (Return, w1)
      | (Raise, w1) \<Rightarrow> (Raise, w1))"

text \<open>
  The \<open>try\<close> body of \<open>_run_automation\<close> after \<open>setup_logger\<close>: load the
  configuration, create the batch directory, loop over the runs, and set \<open>Completed\<close>
  if the loop ends with a status that is neither \<open>Failed\<close> nor \<open>Stopped\<close>.
  \<open>range(1, run_count + 1)\<close> raises \<open>TypeError\<close> unless \<open>run_count\<close> is a number.
\<close>

definition run_batch :: "env \<Rightarrow> worker \<Rightarrow> flow \<times> worker" where
  "run_batch E w =
     (case config E of
        None \<Rightarrow> (Return, assign Failed w)
      | Some cfg \<Rightarrow>
          if batch_dir_raises E then (Raise, w)
          else
            (case run_count (ctl w) of
               PyInt rc \<Rightarrow>
                 (case run_loop E cfg rc (run_delay (ctl w)) [1..rc] w of
                    (Continue, w1) \<Rightarrow>
                      if status (ctl w1) \<noteq> Failed \<and> status (ctl w1) \<noteq> Stopped
                      then (Continue, assign Completed w1)
                      else (Continue, w1)
                  | (Return, w1) \<Rightarrow> (Return, w1)
                  | (Raise, w1) \<Rightarrow> (Raise, w1))
             | _ \<Rightarrow> (Raise, w)))"

text \<open>
  \<open>_run_automation\<close>, the body of the worker thread: \<open>setup_logger\<close>, the batch, the
  handler of any exception, and the \<open>finally\<close> block; then the thread ends.
\<close>

definition run_automation :: "env \<Rightarrow> controller \<Rightarrow> logging \<Rightarrow> worker" where
  "run_automation E c L =
     (let (c1, L1) = setup_logger (log_level E) c L;
          w0 = \<lparr> ctl = c1, lg = L1, checks = 0, slept = 0, trace = [], outcomes = [] \<rparr>;
          w1 = (case run_batch E w0 of
                  (Raise, w') \<Rightarrow> assign Failed w'
                | (_, w') \<Rightarrow> w')
      in w1\<lparr> lg := detach_queue_handler (ctl w1) (lg w1),
             ctl := (ctl w1)\<lparr> thread := ThreadDead \<rparr> \<rparr>)"

section \<open>Session controller: capture sinks on the shared channel\<close>

text \<open>Two sessions, and a logging state with a console handler on the root logger.\<close>

definition session_A :: controller where
  "session_A = SUTController (PyStr ''A'') (PyStr ''10.0.0.1'') (PyInt 8080)
                 (PyStr ''config/a.yaml'') (PyStr [])"

definition session_B :: controller where
  "session_B = SUTController (PyStr ''B'') (PyStr ''10.0.0.2'') (PyInt 8080)
                 (PyStr ''config/b.yaml'') (PyStr [])"

definition logging_initial :: logging where
  "logging_initial =
     \<lparr> root_handlers = [StreamHandler 0], root_level = ''WARNING'',
       named_handlers = (\<lambda>n. []), handlers_created = 0 \<rparr>"

text \<open>
  Claim C4, as stated, fails: session B attaches its sink, then session A attaches its
  own, and B's sink is no longer on the root logger.
\<close>

theorem setup_logger_removes_other_sink_counterexample:
  "queue_handler (fst (setup_logger ''INFO'' session_B logging_initial)) = Some 0 \<and>
   QueueHandler 0 \<in> set (root_handlers (snd (setup_logger ''INFO'' session_B logging_initial))) \<and>
   QueueHandler 0 \<notin> set (root_handlers (snd (setup_logger ''INFO'' session_A
        (snd (setup_logger ''INFO'' session_B logging_initial))))) \<and>
   root_handlers (snd (setup_logger ''INFO'' session_A
        (snd (setup_logger ''INFO'' session_B logging_initial)))) =
     [StreamHandler 0, QueueHandler 1]"
  by (simp add: setup_logger_def session_A_def session_B_def logging_initial_def
      SUTController_def add_handler_def valid_levels_def Let_def)

lemma filter_not_queue_handler:
  "QueueHandler n \<notin> set (filter (\<lambda>h. \<not> is_queue_handler h) hs)"
  by simp

text \<open>
  Claim C4, amended. Attaching a session's capture sink removes every capture sink that
  is on the root logger, the session's own earlier one and those of other sessions
  alike, keeps the handlers of other kinds in their order, and adds the new sink, which
  the session remembers. Detaching at the end of the batch removes the session's own
  sink and nothing else: every other handler is on the root logger afterwards exactly if
  it was before, and the session's own is then gone from a root logger that held it
  once.
\<close>

theorem setup_logger_root_handlers:
  "root_handlers (snd (setup_logger lvl c L)) =
     filter (\<lambda>h. \<not> is_queue_handler h) (root_handlers L) @ [QueueHandler (handlers_created L)] \<and>
   queue_handler (fst (setup_logger lvl c L)) = Some (handlers_created L) \<and>
   (queue_handler c = Some own \<and> h \<noteq> QueueHandler own \<longrightarrow>
      (h \<in> set (root_handlers (detach_queue_handler c L))) = (h \<in> set (root_handlers L))) \<and>
   (queue_handler c = Some own \<and> distinct (root_handlers L) \<longrightarrow>
      QueueHandler own \<notin> set (root_handlers (detach_queue_handler c L)))"
  by (simp add: setup_logger_def Let_def add_handler_def detach_queue_handler_def
      remove_handler_def)

theorem setup_logger_root_handlers_witness:
  "root_handlers (snd (setup_logger ''INFO'' session_B logging_initial)) =
     [StreamHandler 0, QueueHandler 0] \<and>
   StreamHandler 0 \<in> set (root_handlers (detach_queue_handler
      (fst (setup_logger ''INFO'' session_B logging_initial))
      (snd (setup_logger ''INFO'' session_B logging_initial)))) \<and>
   QueueHandler 0 \<notin> set (root_handlers (detach_queue_handler
      (fst (setup_logger ''INFO'' session_B logging_initial))
      (snd (setup_logger ''INFO'' session_B logging_initial))))"
proof -
  let ?c = "fst (setup_logger ''INFO'' session_B logging_initial)"
  let ?L = "snd (setup_logger ''INFO'' session_B logging_initial)"
  have r: "root_handlers ?L = [StreamHandler 0, QueueHandler 0]"
    using setup_logger_root_handlers [of "''INFO''" session_B logging_initial]
    by (simp add: logging_initial_def)
  have q: "queue_handler ?c = Some 0"
    by (simp add: setup_logger_def Let_def logging_initial_def)
  from setup_logger_root_handlers [where c = ?c and L = ?L and own = 0 and h = "StreamHandler 0"] q r
  have a: "StreamHandler 0 \<in> set (root_handlers (detach_queue_handler ?c ?L))"
    by simp
  from setup_logger_root_handlers [where c = ?c and L = ?L and own = 0] q r
  have b: "QueueHandler 0 \<notin> set (root_handlers (detach_queue_handler ?c ?L))"
    by simp
  from r a b show ?thesis by simp
qed

section \<open>Session controller: what a batch leaves behind\<close>












text \<open>What a piece of the worker leaves alone.\<close>

definition frame :: "worker \<Rightarrow> worker \<Rightarrow> bool" where
  "frame w w' \<longleftrightarrow>
     outcomes w' = outcomes w \<and> lg w' = lg w \<and>
     current_run (ctl w') = current_run (ctl w) \<and>
     game_path (ctl w') = game_path (ctl w) \<and>
     queue_handler (ctl w') = queue_handler (ctl w) \<and>
     (stop_event (ctl w) \<longrightarrow> stop_event (ctl w'))"

lemma frame_refl: "frame w w"
  by (simp add: frame_def)

lemma frame_trans: "frame w w1 \<Longrightarrow> frame w1 w2 \<Longrightarrow> frame w w2"
  by (simp add: frame_def)

lemma is_set_frame:
  "is_set E w = (b, w1) \<Longrightarrow>
     frame w w1 \<and> trace w1 = trace w \<and> status (ctl w1) = status (ctl w) \<and>
     stop_event (ctl w1) = b \<and> slept w1 = slept w \<and> checks w1 = Suc (checks w)"
  by (auto simp add: is_set_def Let_def frame_def)

lemma assign_frame:
  "frame w (assign st w) \<and> trace (assign st w) = trace w @ [Assign st] \<and>
   status (ctl (assign st w)) = st \<and>
   stop_event (ctl (assign st w)) = stop_event (ctl w) \<and>
   slept (assign st w) = slept w \<and> checks (assign st w) = checks w"
  by (simp add: assign_def frame_def)






lemma run_state_machine_automation_eq:
  "run_state_machine_automation E cfg k w = run_simple_automation E cfg k w"
  by (simp add: run_state_machine_automation_def run_simple_automation_def)

lemma delay_loop_post:
  "delay_loop E n w = (fl, w') \<Longrightarrow>
     frame w w' \<and>
     (fl = Continue \<and> trace w' = trace w \<and> status (ctl w') = status (ctl w) \<or>
      fl = Return \<and> trace w' = trace w @ [Assign Stopped] \<and> status (ctl w') = Stopped)"
proof (induction n arbitrary: w)
  case 0
  then show ?case by (auto simp add: frame_refl)
next
  case (Suc n)
  obtain b w1 where s: "is_set E w = (b, w1)" by (cases "is_set E w")
  note f = is_set_frame [OF s]
  show ?case
  proof (cases b)
    case True
    then have "fl = Return" and "w' = assign Stopped w1"
      using Suc.prems s by simp_all
    then show ?thesis using assign_frame [of w1 Stopped] f by (auto intro: frame_trans)
  next
    case False
    then have d: "delay_loop E n (sleep1 w1) = (fl, w')"
      using Suc.prems s by simp
    have f1: "frame w (sleep1 w1) \<and> trace (sleep1 w1) = trace w \<and>
        status (ctl (sleep1 w1)) = status (ctl w)"
      using f by (auto simp add: sleep1_def frame_def)
    from Suc.IH [OF d] f1 show ?thesis by (auto intro: frame_trans)
  qed
qed













subsection \<open>Example batches\<close>

definition ok_script :: run_script where
  "ok_script = \<lparr> import_raises = False, init_raises = False, launch_raises = False,
                  engine = Success, cleanup_raises = False \<rparr>"

text \<open>Five runs with two seconds between them; the engine fails in run 2.\<close>

definition session_five :: controller where
  "session_five =
     session_A \<lparr> run_count := PyInt 5, run_delay := PyInt 2, status := Running,
                 thread := ThreadAlive \<rparr>"



section \<open>Session controller: terminal statuses within a batch\<close>




section \<open>Session controller: a failed or cancelled run ends the batch\<close>




section \<open>Session controller: the delay between runs\<close>

text \<open>
  \<open>unseen E t\<close>: the cancellation signal is not seen at any checkpoint before number
  \<open>t\<close>. \<open>startup_ticks\<close>: the seconds a run waits for the game to initialize, which
  are also the checkpoints of that wait. \<open>advanced w dc ds w'\<close>: from \<open>w\<close> to
  \<open>w'\<close> the worker has passed \<open>dc\<close> checkpoints and slept \<open>ds\<close> seconds without
  seeing the signal.
\<close>

definition unseen :: "env \<Rightarrow> nat \<Rightarrow> bool" where
  "unseen E t = (case stop_at E of None \<Rightarrow> True | Some s \<Rightarrow> t \<le> s)"

definition startup_ticks :: "config \<Rightarrow> controller \<Rightarrow> nat" where
  "startup_ticks cfg c = (if truthy (game_path c) then nat (startup_wait cfg) else 0)"

definition advanced :: "worker \<Rightarrow> nat \<Rightarrow> nat \<Rightarrow> worker \<Rightarrow> bool" where
  "advanced w dc ds w' \<longleftrightarrow>
     frame w w' \<and> checks w' = checks w + dc \<and> slept w' = slept w + ds \<and>
     \<not> stop_event (ctl w')"

lemma unseen_mono: "unseen E t \<Longrightarrow> t' \<le> t \<Longrightarrow> unseen E t'"
  by (auto simp add: unseen_def split: option.splits)

lemma is_set_unseen:
  assumes "\<not> stop_event (ctl w)" and "unseen E (Suc (checks w))"
  shows "\<exists>w1. is_set E w = (False, w1) \<and> advanced w 1 0 w1 \<and>
               trace w1 = trace w \<and> status (ctl w1) = status (ctl w)"
  using assms
  by (auto simp add: is_set_def Let_def unseen_def advanced_def frame_def split: option.splits)

lemma is_set_seen:
  assumes "stop_at E = Some s" and "s \<le> checks w"
  shows "\<exists>w1. is_set E w = (True, w1) \<and> frame w w1 \<and> checks w1 = Suc (checks w) \<and>
               slept w1 = slept w \<and> trace w1 = trace w"
  using assms by (auto simp add: is_set_def Let_def frame_def)

lemma advanced_trans:
  "advanced w a b w1 \<Longrightarrow> advanced w1 a' b' w2 \<Longrightarrow> advanced w (a + a') (b + b') w2"
  by (auto simp add: advanced_def intro: frame_trans)

lemma startup_wait_loop_unseen:
  "\<not> stop_event (ctl w) \<Longrightarrow> unseen E (checks w + n) \<Longrightarrow>
     advanced w n n (startup_wait_loop E sw n w)"
proof (induction n arbitrary: w)
  case 0
  then show ?case by (simp add: advanced_def frame_refl)
next
  case (Suc n)
  have u: "unseen E (Suc (checks w))"
    by (rule unseen_mono [OF Suc.prems(2)]) simp
  from is_set_unseen [OF Suc.prems(1) u] obtain w1 where
    s: "is_set E w = (False, w1)" and a1: "advanced w 1 0 w1" by blast
  let ?w2 = "(sleep1 w1)\<lparr> ctl := (ctl w1)\<lparr> current_step :=
               ''Initializing ('' @ show_int (sw - (int (nat sw) - int (Suc n))) @ ''s)'' \<rparr> \<rparr>"
  have a2: "advanced w 1 1 ?w2"
    using a1 by (auto simp add: advanced_def frame_def sleep1_def)
  then have q: "\<not> stop_event (ctl ?w2)" and c: "checks ?w2 = Suc (checks w)"
    by (simp_all add: advanced_def)
  have "unseen E (checks ?w2 + n)" using Suc.prems(2) c by simp
  from Suc.IH [OF q this] have "advanced ?w2 n n (startup_wait_loop E sw n ?w2)" .
  from advanced_trans [OF a2 this] show ?case using s by simp
qed

lemma delay_loop_unseen:
  "\<not> stop_event (ctl w) \<Longrightarrow> unseen E (checks w + n) \<Longrightarrow>
     \<exists>w'. delay_loop E n w = (Continue, w') \<and> advanced w n n w'"
proof (induction n arbitrary: w)
  case 0
  then show ?case by (simp add: advanced_def frame_refl)
next
  case (Suc n)
  have u: "unseen E (Suc (checks w))"
    by (rule unseen_mono [OF Suc.prems(2)]) simp
  from is_set_unseen [OF Suc.prems(1) u] obtain w1 where
    s: "is_set E w = (False, w1)" and a1: "advanced w 1 0 w1" by blast
  have a2: "advanced w 1 1 (sleep1 w1)"
    using a1 by (auto simp add: advanced_def frame_def sleep1_def)
  then have q: "\<not> stop_event (ctl (sleep1 w1))" and c: "checks (sleep1 w1) = Suc (checks w)"
    by (simp_all add: advanced_def)
  have "unseen E (checks (sleep1 w1) + n)" using Suc.prems(2) c by simp
  from Suc.IH [OF q this] obtain w' where
    d: "delay_loop E n (sleep1 w1) = (Continue, w')" and a3: "advanced (sleep1 w1) n n w'"
    by blast
  from advanced_trans [OF a2 a3] d s show ?case by simp
qed

lemma delay_loop_seen:
  "\<not> stop_event (ctl w) \<Longrightarrow> stop_at E = Some (checks w + j) \<Longrightarrow> j < n \<Longrightarrow>
     \<exists>w'. delay_loop E n w = (Return, w') \<and> frame w w' \<and>
          checks w' = checks w + j + 1 \<and> slept w' = slept w + j \<and>
          status (ctl w') = Stopped"
proof (induction n arbitrary: w j)
  case 0
  then show ?case by simp
next
  case (Suc n)
  show ?case
  proof (cases j)
    case 0
    from is_set_seen [OF Suc.prems(2)] 0 obtain w1 where
      s: "is_set E w = (True, w1)" and f: "frame w w1" and c: "checks w1 = Suc (checks w)"
      and sl: "slept w1 = slept w" by auto
    show ?thesis
      using s f c sl 0 assign_frame [of w1 Stopped] by (auto intro: frame_trans)
  next
    case (Suc i)
    have u: "unseen E (Suc (checks w))"
      using Suc.prems(2) Suc by (simp add: unseen_def)
    from is_set_unseen [OF Suc.prems(1) u] obtain w1 where
      s: "is_set E w = (False, w1)" and a1: "advanced w 1 0 w1" by blast
    have a2: "advanced w 1 1 (sleep1 w1)"
      using a1 by (auto simp add: advanced_def frame_def sleep1_def)
    then have q: "\<not> stop_event (ctl (sleep1 w1))" and c: "checks (sleep1 w1) = Suc (checks w)"
      and sl: "slept (sleep1 w1) = Suc (slept w)" and f: "frame w (sleep1 w1)"
      by (simp_all add: advanced_def)
    have st: "stop_at E = Some (checks (sleep1 w1) + i)"
      using Suc.prems(2) Suc c by simp
    have "i < n" using Suc.prems(3) Suc by simp
    from Suc.IH [OF q st this] obtain w' where
      d: "delay_loop E n (sleep1 w1) = (Return, w')" and f': "frame (sleep1 w1) w'"
      and c': "checks w' = checks (sleep1 w1) + i + 1" and sl': "slept w' = slept (sleep1 w1) + i"
      and s': "status (ctl w') = Stopped" by blast
    show ?thesis
      using s d f f' c c' sl sl' s' Suc by (auto intro: frame_trans)
  qed
qed

lemma advanced_startup_ticks:
  "advanced w a b w' \<Longrightarrow> startup_ticks cfg (ctl w') = startup_ticks cfg (ctl w)"
  by (simp add: advanced_def frame_def startup_ticks_def)

lemma run_inner_unseen:
  assumes ok: "script E k = ok_script" and q: "\<not> stop_event (ctl w)"
    and u: "unseen E (checks w + startup_ticks cfg (ctl w) + 1)"
  shows "advanced w (startup_ticks cfg (ctl w) + 1) (startup_ticks cfg (ctl w))
           (run_inner E cfg k w) \<and>
         status (ctl (run_inner E cfg k w)) = Completed"
proof -
  let ?W = "startup_ticks cfg (ctl w)"
  define w1 where "w1 = (if truthy (game_path (ctl w))
                  then startup_wait_loop E (startup_wait cfg) (nat (startup_wait cfg)) w
                  else w)"
  have a1: "advanced w ?W ?W w1"
  proof (cases "truthy (game_path (ctl w))")
    case True
    then have W: "?W = nat (startup_wait cfg)" by (simp add: startup_ticks_def)
    have "unseen E (checks w + nat (startup_wait cfg))"
      by (rule unseen_mono [OF u]) (simp add: W)
    from startup_wait_loop_unseen [OF q this] show ?thesis
      using True by (simp add: w1_def W)
  next
    case False
    then show ?thesis using q by (simp add: w1_def startup_ticks_def advanced_def frame_refl)
  qed
  then have q1: "\<not> stop_event (ctl w1)" and c1: "checks w1 = checks w + ?W"
    by (simp_all add: advanced_def)
  have "unseen E (Suc (checks w1))" using u c1 by simp
  from is_set_unseen [OF q1 this] obtain w2 where
    s: "is_set E w1 = (False, w2)" and a2: "advanced w1 1 0 w2" by blast
  have r: "run_inner E cfg k w = assign Completed (w2\<lparr> trace := trace w2 @ [Engine k] \<rparr>)"
    using ok s by (simp add: run_inner_def w1_def [symmetric] ok_script_def Let_def)
  have a3: "advanced w2 0 0 (assign Completed (w2\<lparr> trace := trace w2 @ [Engine k] \<rparr>))"
    using a2 by (simp add: advanced_def assign_def frame_def)
  from advanced_trans [OF advanced_trans [OF a1 a2] a3]
  show ?thesis unfolding r by (simp add: assign_def)
qed

lemma run_simple_automation_unseen:
  assumes ok: "script E k = ok_script" and q: "\<not> stop_event (ctl w)"
    and u: "unseen E (checks w + startup_ticks cfg (ctl w) + 1)"
  shows "advanced w (startup_ticks cfg (ctl w) + 1) (startup_ticks cfg (ctl w))
           (run_simple_automation E cfg k w) \<and>
         status (ctl (run_simple_automation E cfg k w)) = Completed"
proof -
  define w1 where "w1 = w\<lparr> ctl := (ctl w)\<lparr> current_run_dir :=
        Some (batch_dir E @ ''/run_'' @ show_int k) \<rparr>, trace := trace w @ [MkDir k] \<rparr>"
  have a1: "advanced w 0 0 w1" using q by (simp add: w1_def advanced_def frame_def)
  have st: "startup_ticks cfg (ctl w1) = startup_ticks cfg (ctl w)"
    by (rule advanced_startup_ticks [OF a1])
  have q1: "\<not> stop_event (ctl w1)" and c1: "checks w1 = checks w"
    using a1 by (simp_all add: advanced_def)
  have u1: "unseen E (checks w1 + startup_ticks cfg (ctl w1) + 1)"
    using u by (simp add: st c1)
  have r: "run_simple_automation E cfg k w = run_inner E cfg k w1"
    using ok by (simp add: run_simple_automation_def w1_def ok_script_def Let_def)
  from run_inner_unseen [OF ok q1 u1] advanced_trans [OF a1]
  show ?thesis unfolding r st by fastforce
qed

text \<open>An iteration whose run completes, up to the delay.\<close>

lemma run_iteration_unseen_run:
  assumes ok: "script E k = ok_script" and q: "\<not> stop_event (ctl w)"
    and u: "unseen E (checks w + startup_ticks cfg (ctl w) + 3)"
  shows "\<exists>w5. run_iteration E cfg rc rd k w =
           (if k < rc then
              (case rd of PyInt d \<Rightarrow> if d > 0 then delay_loop E (nat d) w5 else (Continue, w5)
               | _ \<Rightarrow> (Raise, w5))
            else (Continue, w5)) \<and>
         checks w5 = checks w + startup_ticks cfg (ctl w) + 3 \<and>
         slept w5 = slept w + startup_ticks cfg (ctl w) \<and>
         \<not> stop_event (ctl w5) \<and>
         game_path (ctl w5) = game_path (ctl w) \<and>
         outcomes w5 = outcomes w @ [(k, Completed)] \<and>
         current_run (ctl w5) = PyInt k \<and>
         status (ctl w5) = Completed"
proof -
  let ?W = "startup_ticks cfg (ctl w)"
  have "unseen E (Suc (checks w))" by (rule unseen_mono [OF u]) simp
  from is_set_unseen [OF q this] obtain w1 where
    s1: "is_set E w = (False, w1)" and a1: "advanced w 1 0 w1" by blast
  define w2 where "w2 = w1\<lparr> ctl := (ctl w1)\<lparr> current_run := PyInt k \<rparr>,
                        trace := trace w1 @ [SetRun k] \<rparr>"
  have p2: "checks w2 = checks w + 1" "slept w2 = slept w" "\<not> stop_event (ctl w2)"
    "game_path (ctl w2) = game_path (ctl w)" "outcomes w2 = outcomes w"
    "current_run (ctl w2) = PyInt k"
    using a1 by (simp_all add: w2_def advanced_def frame_def)
  have W2: "startup_ticks cfg (ctl w2) = ?W" using p2(4) by (simp add: startup_ticks_def)
  define w3 where "w3 = run_simple_automation E cfg k w2"
  have "unseen E (checks w2 + startup_ticks cfg (ctl w2) + 1)"
    by (rule unseen_mono [OF u]) (simp add: p2 W2)
  from run_simple_automation_unseen [OF ok p2(3) this]
  have a3: "advanced w2 (?W + 1) ?W w3" and st3: "status (ctl w3) = Completed"
    by (simp_all add: w3_def W2)
  define w4 where "w4 = w3\<lparr> outcomes := outcomes w3 @ [(k, status (ctl w3))] \<rparr>"
  have p4: "checks w4 = checks w + ?W + 2" "slept w4 = slept w + ?W" "\<not> stop_event (ctl w4)"
    "game_path (ctl w4) = game_path (ctl w)" "outcomes w4 = outcomes w @ [(k, Completed)]"
    "current_run (ctl w4) = PyInt k" "status (ctl w4) = Completed"
    using a3 p2 st3 by (simp_all add: w4_def advanced_def frame_def)
  have "unseen E (Suc (checks w4))" by (rule unseen_mono [OF u]) (simp add: p4)
  from is_set_unseen [OF p4(3) this] obtain w5 where
    s5: "is_set E w4 = (False, w5)" and a5: "advanced w4 1 0 w5"
    and st5: "status (ctl w5) = status (ctl w4)" by blast
  have it: "run_iteration E cfg rc rd k w =
      (if k < rc then
         (case rd of PyInt d \<Rightarrow> if d > 0 then delay_loop E (nat d) w5 else (Continue, w5)
          | _ \<Rightarrow> (Raise, w5))
       else (Continue, w5))"
    using s1 s5 st5 p4(7)
    by (simp add: run_iteration_def Let_def w2_def [symmetric]
        run_state_machine_automation_eq w3_def [symmetric] w4_def [symmetric])
  have p5: "checks w5 = checks w + ?W + 3" "slept w5 = slept w + ?W" "\<not> stop_event (ctl w5)"
    "game_path (ctl w5) = game_path (ctl w)" "outcomes w5 = outcomes w @ [(k, Completed)]"
    "current_run (ctl w5) = PyInt k" "status (ctl w5) = Completed"
    using a5 p4 st5 by (simp_all add: advanced_def frame_def)
  from it p5 show ?thesis by blast
qed

lemma run_iteration_unseen:
  assumes ok: "script E k = ok_script" and q: "\<not> stop_event (ctl w)"
    and u: "unseen E (checks w + startup_ticks cfg (ctl w) + 3 + (if k < rc then nat d else 0))"
  shows "\<exists>w'. run_iteration E cfg rc (PyInt d) k w = (Continue, w') \<and>
         checks w' = checks w + startup_ticks cfg (ctl w) + 3 + (if k < rc then nat d else 0) \<and>
         slept w' = slept w + startup_ticks cfg (ctl w) + (if k < rc then nat d else 0) \<and>
         \<not> stop_event (ctl w') \<and>
         game_path (ctl w') = game_path (ctl w) \<and>
         outcomes w' = outcomes w @ [(k, Completed)] \<and>
         current_run (ctl w') = PyInt k \<and>
         status (ctl w') = Completed"
proof -
  let ?W = "startup_ticks cfg (ctl w)"
  have "unseen E (checks w + ?W + 3)" by (rule unseen_mono [OF u]) simp
  from run_iteration_unseen_run [OF ok q this, of rc "PyInt d"] obtain w5 where
    it0: "run_iteration E cfg rc (PyInt d) k w =
           (if k < rc then
              (case PyInt d of
                 PyInt d \<Rightarrow> if d > 0 then delay_loop E (nat d) w5 else (Continue, w5)
               | _ \<Rightarrow> (Raise, w5))
            else (Continue, w5))"
    and p5: "checks w5 = checks w + ?W + 3" "slept w5 = slept w + ?W"
      "\<not> stop_event (ctl w5)" "game_path (ctl w5) = game_path (ctl w)"
      "outcomes w5 = outcomes w @ [(k, Completed)]" "current_run (ctl w5) = PyInt k"
      "status (ctl w5) = Completed"
    by blast
  have it: "run_iteration E cfg rc (PyInt d) k w =
           (if k < rc then (if d > 0 then delay_loop E (nat d) w5 else (Continue, w5))
            else (Continue, w5))"
    using it0 by simp
  show ?thesis
  proof (cases "k < rc \<and> d > 0")
    case False
    then have "run_iteration E cfg rc (PyInt d) k w = (Continue, w5)"
      and "(if k < rc then nat d else 0) = 0"
      using it by auto
    then show ?thesis using p5 by simp
  next
    case True
    then have dd: "(if k < rc then nat d else 0) = nat d" by simp
    have "unseen E (checks w5 + nat d)" using u by (simp add: p5 dd)
    from delay_loop_unseen [OF p5(3) this] obtain w' where
      dl: "delay_loop E (nat d) w5 = (Continue, w')" and a: "advanced w5 (nat d) (nat d) w'"
      by blast
    from delay_loop_post [OF dl] have st: "status (ctl w') = status (ctl w5)" by simp
    have "run_iteration E cfg rc (PyInt d) k w = (Continue, w')"
      using it True dl by simp
    then show ?thesis
      using a p5 st by (simp add: dd advanced_def frame_def)
  qed
qed

lemma run_iteration_seen:
  assumes "stop_at E = Some s" and "s \<le> checks w"
  shows "\<exists>w'. run_iteration E cfg rc rd k w = (Return, w') \<and> frame w w' \<and>
         slept w' = slept w \<and> checks w' = Suc (checks w) \<and> status (ctl w') = Stopped"
proof -
  from is_set_seen [OF assms] obtain w1 where
    s: "is_set E w = (True, w1)" and f: "frame w w1" and c: "checks w1 = Suc (checks w)"
    and sl: "slept w1 = slept w" by blast
  have "run_iteration E cfg rc rd k w = (Return, assign Stopped w1)"
    using s by (simp add: run_iteration_def)
  then show ?thesis
    using f c sl assign_frame [of w1 Stopped] by (auto intro: frame_trans)
qed

lemma run_iteration_seen_in_delay:
  assumes ok: "script E k = ok_script" and q: "\<not> stop_event (ctl w)"
    and st: "stop_at E = Some (checks w + startup_ticks cfg (ctl w) + 3 + j)"
    and j: "j < nat d" and k: "k < rc"
  shows "\<exists>w'. run_iteration E cfg rc (PyInt d) k w = (Return, w') \<and>
         slept w' = slept w + startup_ticks cfg (ctl w) + j \<and>
         checks w' = checks w + startup_ticks cfg (ctl w) + 3 + j + 1 \<and>
         outcomes w' = outcomes w @ [(k, Completed)] \<and>
         current_run (ctl w') = PyInt k \<and>
         status (ctl w') = Stopped"
proof -
  let ?W = "startup_ticks cfg (ctl w)"
  have "unseen E (checks w + ?W + 3)" using st by (simp add: unseen_def)
  from run_iteration_unseen_run [OF ok q this, of rc "PyInt d"] obtain w5 where
    it0: "run_iteration E cfg rc (PyInt d) k w =
           (if k < rc then
              (case PyInt d of
                 PyInt d \<Rightarrow> if d > 0 then delay_loop E (nat d) w5 else (Continue, w5)
               | _ \<Rightarrow> (Raise, w5))
            else (Continue, w5))"
    and p5: "checks w5 = checks w + ?W + 3" "slept w5 = slept w + ?W"
      "\<not> stop_event (ctl w5)" "game_path (ctl w5) = game_path (ctl w)"
      "outcomes w5 = outcomes w @ [(k, Completed)]" "current_run (ctl w5) = PyInt k"
      "status (ctl w5) = Completed"
    by blast
  have it: "run_iteration E cfg rc (PyInt d) k w =
           (if k < rc then (if d > 0 then delay_loop E (nat d) w5 else (Continue, w5))
            else (Continue, w5))"
    using it0 by simp
  have st5: "stop_at E = Some (checks w5 + j)" using st by (simp add: p5)
  from delay_loop_seen [OF p5(3) st5 j] obtain w' where
    dl: "delay_loop E (nat d) w5 = (Return, w')" and f: "frame w5 w'"
    and c: "checks w' = checks w5 + j + 1" and sl: "slept w' = slept w5 + j"
    and s: "status (ctl w') = Stopped" by blast
  have "run_iteration E cfg rc (PyInt d) k w = (Return, w')"
    using it k j dl by simp
  then show ?thesis using f c sl s p5 by (simp add: frame_def)
qed

lemma run_loop_append:
  "run_loop E cfg rc rd (xs @ ys) w =
     (case run_loop E cfg rc rd xs w of
        (Continue, w1) \<Rightarrow> run_loop E cfg rc rd ys w1
      | (Return, w1) \<Rightarrow> (Return, w1)
      | (Raise, w1) \<Rightarrow> (Raise, w1))"
proof (induction xs arbitrary: w)
  case Nil
  show ?case by simp
next
  case (Cons x xs)
  obtain fl w1 where it: "run_iteration E cfg rc rd x w = (fl, w1)"
    by (cases "run_iteration E cfg rc rd x w")
  show ?case using it Cons.IH [of w1] by (cases fl) simp_all
qed

text \<open>The number of delays that follow the runs \<open>ks\<close> of a batch of \<open>rc\<close> runs.\<close>

definition delays :: "int \<Rightarrow> int list \<Rightarrow> nat" where
  "delays rc ks = length (filter (\<lambda>k. k < rc) ks)"

lemma run_loop_unseen:
  "\<forall>k \<in> set ks. script E k = ok_script \<Longrightarrow> \<not> stop_event (ctl w) \<Longrightarrow>
   unseen E (checks w + length ks * (startup_ticks cfg (ctl w) + 3) + delays rc ks * nat d) \<Longrightarrow>
     \<exists>w'. run_loop E cfg rc (PyInt d) ks w = (Continue, w') \<and>
       checks w' = checks w + length ks * (startup_ticks cfg (ctl w) + 3) + delays rc ks * nat d \<and>
       slept w' = slept w + length ks * startup_ticks cfg (ctl w) + delays rc ks * nat d \<and>
       \<not> stop_event (ctl w') \<and>
       game_path (ctl w') = game_path (ctl w) \<and>
       outcomes w' = outcomes w @ map (\<lambda>k. (k, Completed)) ks \<and>
       (ks \<noteq> [] \<longrightarrow> current_run (ctl w') = PyInt (last ks) \<and> status (ctl w') = Completed) \<and>
       (ks = [] \<longrightarrow> w' = w)"
proof (induction ks arbitrary: w)
  case Nil
  then show ?case by (simp add: delays_def)
next
  case (Cons k ks)
  let ?W = "startup_ticks cfg (ctl w)"
  let ?dd = "if k < rc then nat d else 0"
  have ok: "script E k = ok_script" using Cons.prems(1) by simp
  have oks: "\<forall>k \<in> set ks. script E k = ok_script" using Cons.prems(1) by simp
  have dl: "delays rc (k # ks) * nat d = ?dd + delays rc ks * nat d"
    by (simp add: delays_def)
  have "unseen E (checks w + ?W + 3 + ?dd)"
    by (rule unseen_mono [OF Cons.prems(3)]) (simp add: dl)
  from run_iteration_unseen [OF ok Cons.prems(2) this] obtain w1 where
    it: "run_iteration E cfg rc (PyInt d) k w = (Continue, w1)"
    and p1: "checks w1 = checks w + ?W + 3 + ?dd" "slept w1 = slept w + ?W + ?dd"
      "\<not> stop_event (ctl w1)" "game_path (ctl w1) = game_path (ctl w)"
      "outcomes w1 = outcomes w @ [(k, Completed)]" "current_run (ctl w1) = PyInt k"
      "status (ctl w1) = Completed"
    by blast
  have W1: "startup_ticks cfg (ctl w1) = ?W" using p1(4) by (simp add: startup_ticks_def)
  have "unseen E (checks w1 + length ks * (startup_ticks cfg (ctl w1) + 3) + delays rc ks * nat d)"
    by (rule unseen_mono [OF Cons.prems(3)]) (simp add: p1 W1 dl)
  from Cons.IH [OF oks p1(3) this] obtain w' where
    l: "run_loop E cfg rc (PyInt d) ks w1 = (Continue, w')"
    and p: "checks w' = checks w1 + length ks * (?W + 3) + delays rc ks * nat d"
      "slept w' = slept w1 + length ks * ?W + delays rc ks * nat d"
      "\<not> stop_event (ctl w')" "game_path (ctl w') = game_path (ctl w1)"
      "outcomes w' = outcomes w1 @ map (\<lambda>k. (k, Completed)) ks"
      "ks \<noteq> [] \<longrightarrow> current_run (ctl w') = PyInt (last ks) \<and> status (ctl w') = Completed"
      "ks = [] \<longrightarrow> w' = w1"
    unfolding W1 by blast
  have r: "run_loop E cfg rc (PyInt d) (k # ks) w = (Continue, w')"
    using it l by simp
  have c: "checks w' = checks w + length (k # ks) * (?W + 3) + delays rc (k # ks) * nat d"
    using p(1) p1(1) by (simp add: dl)
  have s: "slept w' = slept w + length (k # ks) * ?W + delays rc (k # ks) * nat d"
    using p(2) p1(2) by (simp add: dl)
  have cr: "current_run (ctl w') = PyInt (last (k # ks)) \<and> status (ctl w') = Completed"
    using p(6,7) p1(6,7) by (cases "ks = []") simp_all
  from r c s p(3) p(4) p1(4) p(5) p1(5) cr show ?case by simp
qed

subsection \<open>Whole batches\<close>

text \<open>The worker as the batch begins, after \<open>setup_logger\<close>.\<close>

definition batch_start :: "env \<Rightarrow> controller \<Rightarrow> logging \<Rightarrow> worker" where
  "batch_start E c L =
     \<lparr> ctl = fst (setup_logger (log_level E) c L), lg = snd (setup_logger (log_level E) c L),
       checks = 0, slept = 0, trace = [], outcomes = [] \<rparr>"

lemma batch_start_simps:
  "checks (batch_start E c L) = 0" "slept (batch_start E c L) = 0"
  "outcomes (batch_start E c L) = []"
  "game_path (ctl (batch_start E c L)) = game_path c"
  "stop_event (ctl (batch_start E c L)) = stop_event c"
  "run_count (ctl (batch_start E c L)) = run_count c"
  "run_delay (ctl (batch_start E c L)) = run_delay c"
  "startup_ticks cfg (ctl (batch_start E c L)) = startup_ticks cfg c"
  by (simp_all add: batch_start_def setup_logger_def Let_def startup_ticks_def)

lemma run_automation_of_loop:
  assumes "config E = Some cfg" and "\<not> batch_dir_raises E"
    and "run_count c = PyInt n" and "run_delay c = PyInt d"
    and "run_loop E cfg n (PyInt d) [1..n] (batch_start E c L) = (fl, w')"
    and "fl = Return \<or> fl = Continue \<and> status (ctl w') = Completed"
  shows "status (ctl (run_automation E c L)) = status (ctl w') \<and>
         slept (run_automation E c L) = slept w' \<and>
         checks (run_automation E c L) = checks w' \<and>
         outcomes (run_automation E c L) = outcomes w' \<and>
         current_run (ctl (run_automation E c L)) = current_run (ctl w')"
proof -
  have rb: "run_batch E (batch_start E c L) =
      (case fl of
         Continue \<Rightarrow>
           if status (ctl w') \<noteq> Failed \<and> status (ctl w') \<noteq> Stopped
           then (Continue, assign Completed w') else (Continue, w')
       | Return \<Rightarrow> (Return, w')
       | Raise \<Rightarrow> (Raise, w'))"
    using assms(1-5) by (simp add: run_batch_def batch_start_simps)
  have ra: "run_automation E c L =
      (let w1 = (case run_batch E (batch_start E c L) of
                  (Raise, w') \<Rightarrow> assign Failed w'
                | (_, w') \<Rightarrow> w')
       in w1\<lparr> lg := detach_queue_handler (ctl w1) (lg w1),
              ctl := (ctl w1)\<lparr> thread := ThreadDead \<rparr> \<rparr>)"
    by (simp add: run_automation_def batch_start_def split_beta Let_def)
  from assms(6) show ?thesis
  proof
    assume "fl = Return"
    then show ?thesis unfolding ra rb by (simp add: Let_def)
  next
    assume "fl = Continue \<and> status (ctl w') = Completed"
    then show ?thesis unfolding ra rb by (simp add: Let_def assign_def)
  qed
qed

lemma delays_upto_below:
  "n < rc \<Longrightarrow> delays rc [1..n] = nat n"
proof -
  assume "n < rc"
  then have "filter (\<lambda>k. k < rc) [1..n] = [1..n]" by (auto intro: filter_True)
  then show ?thesis by (simp add: delays_def)
qed

lemma delays_upto_all:
  assumes "0 < n" shows "delays n [1..n] = nat n - 1"
proof -
  have "[1..n] = [1..n - 1] @ [n]" using assms by (simp add: upto_rec2)
  then have "delays n [1..n] = delays n [1..n - 1]" by (simp add: delays_def)
  also have "\<dots> = nat (n - 1)" by (rule delays_upto_below) simp
  finally show ?thesis using assms by (simp add: nat_diff_distrib)
qed

lemma unseen_None: "stop_at E = None \<Longrightarrow> unseen E t"
  by (simp add: unseen_def)

lemma batch_without_stop:
  assumes sc: "\<forall>k \<in> {1..n}. script E k = ok_script" and cf: "config E = Some cfg"
    and bd: "\<not> batch_dir_raises E" and rc: "run_count c = PyInt n"
    and rd: "run_delay c = PyInt d" and se: "\<not> stop_event c"
    and st: "stop_at E = None" and n: "0 < n"
  shows "status (ctl (run_automation E c L)) = Completed \<and>
         outcomes (run_automation E c L) = map (\<lambda>k. (k, Completed)) [1..n] \<and>
         current_run (ctl (run_automation E c L)) = PyInt n \<and>
         slept (run_automation E c L) =
           nat n * startup_ticks cfg c + (nat n - 1) * nat d \<and>
         checks (run_automation E c L) =
           nat n * (startup_ticks cfg c + 3) + (nat n - 1) * nat d"
proof -
  let ?w0 = "batch_start E c L"
  have q: "\<not> stop_event (ctl ?w0)" using se by (simp add: batch_start_simps)
  have ne: "[1..n] \<noteq> []" using n by simp
  have la: "last [1..n] = n" using n by (simp add: upto_rec2)
  have sc': "\<forall>k \<in> set [1..n]. script E k = ok_script" using sc by simp
  from run_loop_unseen [OF sc' q unseen_None [OF st], where cfg = cfg
      and rc = n and d = d]
  obtain w' where
    l: "run_loop E cfg n (PyInt d) [1..n] ?w0 = (Continue, w')"
    and p: "checks w' = nat n * (startup_ticks cfg c + 3) + (nat n - 1) * nat d"
      "slept w' = nat n * startup_ticks cfg c + (nat n - 1) * nat d"
      "outcomes w' = map (\<lambda>k. (k, Completed)) [1..n]"
      "current_run (ctl w') = PyInt n" "status (ctl w') = Completed"
    using ne la n by (auto simp add: batch_start_simps delays_upto_all)
  from run_automation_of_loop [OF cf bd rc rd l] p show ?thesis by simp
qed

lemma batch_stopped_in_delay:
  assumes sc: "\<forall>k \<in> {1..int m + 1}. script E k = ok_script" and cf: "config E = Some cfg"
    and bd: "\<not> batch_dir_raises E" and rc: "run_count c = PyInt n"
    and rd: "run_delay c = PyInt d" and se: "\<not> stop_event c"
    and m: "int m + 1 < n" and j: "j \<le> nat d"
    and st: "stop_at E =
      Some (m * (startup_ticks cfg c + 3 + nat d) + startup_ticks cfg c + 3 + j)"
  shows "status (ctl (run_automation E c L)) = Stopped \<and>
         outcomes (run_automation E c L) = map (\<lambda>k. (k, Completed)) [1..int m + 1] \<and>
         current_run (ctl (run_automation E c L)) = PyInt (int m + 1) \<and>
         slept (run_automation E c L) = (m + 1) * startup_ticks cfg c + m * nat d + j"
proof -
  let ?w0 = "batch_start E c L"
  let ?W = "startup_ticks cfg c"
  have q: "\<not> stop_event (ctl ?w0)" using se by (simp add: batch_start_simps)
  have ok: "script E (int m + 1) = ok_script" using sc by simp
  have sc1: "\<forall>k \<in> set [1..int m]. script E k = ok_script" using sc by simp
  have sc2: "\<forall>k \<in> set [1..int m + 1]. script E k = ok_script" using sc by simp
  have oc: "map (\<lambda>k. (k, Completed)) [1..int m] @ [(int m + 1, Completed)] =
      map (\<lambda>k. (k, Completed)) [1..int m + 1]"
    by (simp add: upto_rec2)
  show ?thesis
  proof (cases "j < nat d")
    case True
    have sp: "[1..n] = [1..int m] @ (int m + 1) # [int m + 2..n]"
      using m upto_split3 [of 1 "int m + 1" n] by (simp add: add.commute)
    have len: "length [1..int m] = m" by simp
    have del: "delays n [1..int m] = m"
      using m delays_upto_below [of "int m" n] by simp
    have "unseen E (checks ?w0 + length [1..int m] * (startup_ticks cfg (ctl ?w0) + 3) +
        delays n [1..int m] * nat d)"
      unfolding len del using st by (simp add: unseen_def batch_start_simps algebra_simps)
    from run_loop_unseen [OF sc1 q this] obtain w1 where
      l1: "run_loop E cfg n (PyInt d) [1..int m] ?w0 = (Continue, w1)"
      and p1: "checks w1 = m * (?W + 3) + m * nat d" "slept w1 = m * ?W + m * nat d"
        "\<not> stop_event (ctl w1)" "game_path (ctl w1) = game_path c"
        "outcomes w1 = map (\<lambda>k. (k, Completed)) [1..int m]"
      unfolding len del by (auto simp add: batch_start_simps)
    have W1: "startup_ticks cfg (ctl w1) = ?W" using p1(4) by (simp add: startup_ticks_def)
    have st1: "stop_at E = Some (checks w1 + startup_ticks cfg (ctl w1) + 3 + j)"
      using st by (simp add: p1 W1 algebra_simps)
    have "int m + 1 < n" by (rule m)
    from run_iteration_seen_in_delay [OF ok p1(3) st1 True this] obtain w2 where
      it: "run_iteration E cfg n (PyInt d) (int m + 1) w1 = (Return, w2)"
      and p2: "slept w2 = slept w1 + ?W + j" "outcomes w2 = outcomes w1 @ [(int m + 1, Completed)]"
        "current_run (ctl w2) = PyInt (int m + 1)" "status (ctl w2) = Stopped"
      unfolding W1 by auto
    have l: "run_loop E cfg n (PyInt d) [1..n] ?w0 = (Return, w2)"
      unfolding sp run_loop_append using l1 it by simp
    from run_automation_of_loop [OF cf bd rc rd l] p2 p1 oc show ?thesis by simp
  next
    case False
    then have jd: "j = nat d" using j by simp
    have sp: "[1..n] = [1..int m + 1] @ (int m + 2) # [int m + 3..n]"
      using m upto_split3 [of 1 "int m + 2" n] by (simp add: add.commute)
    have len: "length [1..int m + 1] = m + 1" by simp
    have del: "delays n [1..int m + 1] = m + 1"
      using m delays_upto_below [of "int m + 1" n] by simp
    have la: "last [1..int m + 1] = int m + 1" by (simp add: upto_rec2)
    have "unseen E (checks ?w0 + length [1..int m + 1] * (startup_ticks cfg (ctl ?w0) + 3) +
        delays n [1..int m + 1] * nat d)"
      unfolding len del using st jd by (simp add: unseen_def batch_start_simps algebra_simps)
    from run_loop_unseen [OF sc2 q this] obtain w1 where
      l1: "run_loop E cfg n (PyInt d) [1..int m + 1] ?w0 = (Continue, w1)"
      and p1: "checks w1 = (m + 1) * (?W + 3) + (m + 1) * nat d"
        "slept w1 = (m + 1) * ?W + (m + 1) * nat d"
        "outcomes w1 = map (\<lambda>k. (k, Completed)) [1..int m + 1]"
        "current_run (ctl w1) = PyInt (int m + 1)"
      unfolding len del using la by (auto simp add: batch_start_simps)
    have "m * (?W + 3 + nat d) + ?W + 3 + j \<le> checks w1"
      by (simp add: p1 jd algebra_simps)
    from run_iteration_seen [OF st this, where cfg = cfg and rc = n and rd = "PyInt d"
        and k = "int m + 2"] obtain w2 where
      it: "run_iteration E cfg n (PyInt d) (int m + 2) w1 = (Return, w2)"
      and f: "frame w1 w2" and p2: "slept w2 = slept w1" "status (ctl w2) = Stopped"
      by blast
    have l: "run_loop E cfg n (PyInt d) [1..n] ?w0 = (Return, w2)"
      unfolding sp run_loop_append using l1 it by simp
    from run_automation_of_loop [OF cf bd rc rd l] p2 p1 f jd show ?thesis
      by (simp add: frame_def algebra_simps)
  qed
qed

text \<open>
  Five runs that all complete, two seconds apart; and the same batch with the signal
  raised during the first second of the delay after run 2, so that it is seen at
  checkpoint 9.
\<close>

definition env_all_succeed :: env where
  "env_all_succeed =
     \<lparr> log_level = ''INFO'', stop_at = None,
       config = Some \<lparr> step_based = True, startup_wait = 30 \<rparr>,
       batch_dir = ''logs/A/batch_20250101_120000'', batch_dir_raises = False,
       script = (\<lambda>k. ok_script) \<rparr>"

definition env_stop_in_delay :: env where
  "env_stop_in_delay = env_all_succeed \<lparr> stop_at := Some 9 \<rparr>"

text \<open>
  Claim C8. Take a batch of \<open>n\<close> runs with \<open>d\<close> seconds between runs, started
  with the cancellation signal clear. Each run passes \<open>startup_ticks + 3\<close>
  checkpoints: one before the run, one a second while waiting for the game, one before
  the engine, one after the run.

  If the signal is never raised and every run completes, the batch ends \<open>Completed\<close>
  after all \<open>n\<close> runs, and besides the waits for the game it has slept
  \<open>(n - 1) * d\<close> seconds and passed \<open>(n - 1) * d\<close> checkpoints: \<open>d\<close> one-second
  sleeps, each after a check of the signal, between consecutive runs and none after the
  last.

  If the first \<open>m + 1\<close> runs complete, more runs are to come, and the signal is first
  seen at checkpoint number \<open>j\<close> of the delay after run \<open>m + 1\<close>, that is, it was
  raised during second \<open>j\<close> of that delay (\<open>j = 0\<close>: before its first check;
  \<open>j = d\<close>: during its last second, and seen by the check before the next run), then
  the worker sleeps exactly those \<open>j\<close> seconds of the delay and no more, the status
  becomes \<open>Stopped\<close>, the batch ends, and \<open>current_run\<close> stays at \<open>m + 1\<close>.
\<close>

theorem delay_between_runs:
  assumes "config E = Some cfg" and "\<not> batch_dir_raises E"
    and "run_count c = PyInt n" and "run_delay c = PyInt d" and "\<not> stop_event c"
  shows "(stop_at E = None \<and> 0 < n \<and> (\<forall>k \<in> {1..n}. script E k = ok_script) \<longrightarrow>
            status (ctl (run_automation E c L)) = Completed \<and>
            outcomes (run_automation E c L) = map (\<lambda>k. (k, Completed)) [1..n] \<and>
            current_run (ctl (run_automation E c L)) = PyInt n \<and>
            slept (run_automation E c L) =
              nat n * startup_ticks cfg c + (nat n - 1) * nat d \<and>
            checks (run_automation E c L) =
              nat n * (startup_ticks cfg c + 3) + (nat n - 1) * nat d) \<and>
         (int m + 1 < n \<and> j \<le> nat d \<and>
          (\<forall>k \<in> {1..int m + 1}. script E k = ok_script) \<and>
          stop_at E =
            Some (m * (startup_ticks cfg c + 3 + nat d) + startup_ticks cfg c + 3 + j) \<longrightarrow>
            status (ctl (run_automation E c L)) = Stopped \<and>
            outcomes (run_automation E c L) = map (\<lambda>k. (k, Completed)) [1..int m + 1] \<and>
            current_run (ctl (run_automation E c L)) = PyInt (int m + 1) \<and>
            slept (run_automation E c L) = (m + 1) * startup_ticks cfg c + m * nat d + j)"
  using batch_without_stop [OF _ assms(1-5), of L]
    batch_stopped_in_delay [OF _ assms(1-5), of m j L]
  by blast

theorem delay_between_runs_witness:
  "status (ctl (run_automation env_all_succeed session_five logging_initial)) = Completed \<and>
   slept (run_automation env_all_succeed session_five logging_initial) = 8 \<and>
   checks (run_automation env_all_succeed session_five logging_initial) = 23 \<and>
   status (ctl (run_automation env_stop_in_delay session_five logging_initial)) = Stopped \<and>
   current_run (ctl (run_automation env_stop_in_delay session_five logging_initial)) = PyInt 2 \<and>
   slept (run_automation env_stop_in_delay session_five logging_initial) = 3"
proof -
  let ?cfg = "\<lparr> step_based = True, startup_wait = 30 \<rparr>"
  have t: "startup_ticks ?cfg session_five = 0"
    by (simp add: startup_ticks_def session_five_def session_A_def SUTController_def)
  have c: "run_count session_five = PyInt 5" "run_delay session_five = PyInt 2"
    "\<not> stop_event session_five"
    by (simp_all add: session_five_def session_A_def SUTController_def)
  have a: "status (ctl (run_automation env_all_succeed session_five logging_initial)) = Completed \<and>
   slept (run_automation env_all_succeed session_five logging_initial) = 8 \<and>
   checks (run_automation env_all_succeed session_five logging_initial) = 23"
    using delay_between_runs [where E = env_all_succeed and cfg = ?cfg and c = session_five
        and n = 5 and d = 2 and L = logging_initial] c t
    by (simp add: env_all_succeed_def)
  have b: "status (ctl (run_automation env_stop_in_delay session_five logging_initial)) = Stopped \<and>
   current_run (ctl (run_automation env_stop_in_delay session_five logging_initial)) = PyInt 2 \<and>
   slept (run_automation env_stop_in_delay session_five logging_initial) = 3"
    using delay_between_runs [where E = env_stop_in_delay and cfg = ?cfg and c = session_five
        and n = 5 and d = 2 and L = logging_initial and m = 1 and j = 1] c t
    by (simp add: env_stop_in_delay_def env_all_succeed_def)
  from a b show ?thesis by simp
qed

lemma delay_example:
  "slept (run_automation env_stop_in_delay session_five logging_initial) = 3 \<and>
   checks (run_automation env_stop_in_delay session_five logging_initial) = 10 \<and>
   trace (run_automation env_stop_in_delay session_five logging_initial) =
     [SetRun 1, MkDir 1, Engine 1, Assign Completed,
      SetRun 2, MkDir 2, Engine 2, Assign Completed, Assign Stopped]"
  by code_simp

end
